theory Spec2Isabelle
  imports
    Complex_Main
    "HOL-Library.Sublist"
    "HOL-Library.Char_ord"
    "HOL-Library.List_Lexorder"
    "HOL-Library.Multiset"
begin

section \<open>The schedule scraper \<^verbatim>\<open>scripts/scrape.py\<close>\<close>

text \<open>
  The script is Python 3 (\<^verbatim>\<open>/\<close> on integers is true division, \<^verbatim>\<open>bytes.decode\<close>).
  A Python \<^verbatim>\<open>str\<close> of the parsing stage is modelled as a \<^typ>\<open>string\<close>: a list of
  characters with code points \<open>0 .. 255\<close>, compared by code point. Code points above
  \<open>255\<close> are outside this part of the model; the encoding repair, whose input may hold
  any code point, works on lists of code points instead. Python's unbounded \<^verbatim>\<open>int\<close> is
  \<^typ>\<open>int\<close>. Every exception the code can raise is a value of \<open>py_error\<close>, and a
  function that may raise returns \<open>py_error + 'a\<close>.
\<close>

subsection \<open>Exceptions\<close>

text \<open>
  The four places a \<^verbatim>\<open>ValueError\<close> comes from are kept apart: tuple unpacking with
  too few or too many values, the explicit \<^verbatim>\<open>raise ValueError("Can't parse " + ts)\<close>
  of \<^verbatim>\<open>convert_time\<close>, and \<^verbatim>\<open>int()\<close> on a string that is no integer literal.
\<close>

datatype value_error =
    NotEnoughValues
  | TooManyValues
  | CantParse string
  | InvalidLiteral string

datatype py_error =
    ValueError value_error
  | AttributeError
  | IndexError
  | KeyError
  | TypeError
  | OverflowError
  | UnicodeDecodeError
  | UnicodeEncodeError

subsection \<open>String operations of Python used by the script\<close>

text \<open>\<^verbatim>\<open>str.isspace\<close> on one character, which is also what \<^verbatim>\<open>str.strip()\<close> removes and
  what \<^verbatim>\<open>\s\<close> matches in a \<^verbatim>\<open>str\<close> pattern: code points 9-13, 28-32, 133 and 160.\<close>

definition isspace :: "char \<Rightarrow> bool" where
  "isspace c = (let n = (of_char c :: nat) in
     (9 \<le> n \<and> n \<le> 13) \<or> (28 \<le> n \<and> n \<le> 32) \<or> n = 133 \<or> n = 160)"

text \<open>\<^verbatim>\<open>s.strip()\<close>\<close>

definition strip :: "string \<Rightarrow> string" where
  "strip s = rev (dropWhile isspace (rev (dropWhile isspace s)))"

text \<open>\<^verbatim>\<open>s.split(sep)\<close> for a non-empty separator: the leftmost occurrences, not
  overlapping; the result is never empty.\<close>

function str_split :: "string \<Rightarrow> string \<Rightarrow> string list" where
  "str_split sep [] = [[]]"
| "str_split sep (c # cs) =
     (if sep \<noteq> [] \<and> prefix sep (c # cs)
      then [] # str_split sep (drop (length sep) (c # cs))
      else (case str_split sep cs of
              [] \<Rightarrow> [[c]]
            | w # ws \<Rightarrow> (c # w) # ws))"
  by pat_completeness auto
termination
  by (relation "measure (\<lambda>(sep, s). length s)") (auto simp: neq_Nil_conv)

text \<open>\<^verbatim>\<open>sep.join(xs)\<close>\<close>

fun str_join :: "string \<Rightarrow> string list \<Rightarrow> string" where
  "str_join sep [] = []"
| "str_join sep [x] = x"
| "str_join sep (x # y # ys) = x @ sep @ str_join sep (y # ys)"

text \<open>\<^verbatim>\<open>a, b = xs\<close> for a list \<^verbatim>\<open>xs\<close>.\<close>

fun unpack2 :: "'a list \<Rightarrow> py_error + ('a \<times> 'a)" where
  "unpack2 [] = Inl (ValueError NotEnoughValues)"
| "unpack2 [a] = Inl (ValueError NotEnoughValues)"
| "unpack2 [a, b] = Inr (a, b)"
| "unpack2 (a # b # c # xs) = Inl (ValueError TooManyValues)"

text \<open>Sequencing of two steps that may raise: the first exception wins.\<close>

definition bind_err :: "py_error + 'a \<Rightarrow> ('a \<Rightarrow> py_error + 'b) \<Rightarrow> py_error + 'b" where
  "bind_err m f = (case m of Inl e \<Rightarrow> Inl e | Inr x \<Rightarrow> f x)"

text \<open>\<^verbatim>\<open>[f(x) for x in xs]\<close> and \<^verbatim>\<open>list(map(f, xs))\<close> for an \<^verbatim>\<open>f\<close> that may raise:
  the elements are visited in order and the first exception ends the loop.\<close>

fun map_raising :: "('a \<Rightarrow> py_error + 'b) \<Rightarrow> 'a list \<Rightarrow> py_error + 'b list" where
  "map_raising f [] = Inr []"
| "map_raising f (x # xs) =
     bind_err (f x) (\<lambda>y. bind_err (map_raising f xs) (\<lambda>ys. Inr (y # ys)))"

text \<open>\<^verbatim>\<open>a, b = map(f, xs)\<close>: the iterator is consumed lazily, so \<^verbatim>\<open>f\<close> runs on the
  first two elements, and on a third one if there is one, before the unpacking fails.\<close>

fun unpack_map2 :: "('a \<Rightarrow> py_error + 'b) \<Rightarrow> 'a list \<Rightarrow> py_error + ('b \<times> 'b)" where
  "unpack_map2 f [] = Inl (ValueError NotEnoughValues)"
| "unpack_map2 f [a] = bind_err (f a) (\<lambda>x. Inl (ValueError NotEnoughValues))"
| "unpack_map2 f [a, b] = bind_err (f a) (\<lambda>x. bind_err (f b) (\<lambda>y. Inr (x, y)))"
| "unpack_map2 f (a # b # c # xs) =
     bind_err (f a) (\<lambda>x. bind_err (f b) (\<lambda>y. bind_err (f c) (\<lambda>z.
       Inl (ValueError TooManyValues))))"

text \<open>\<^verbatim>\<open>xs[i:j]\<close>: a negative index counts from the end, and both ends are clamped
  to the list, so a slice never raises.\<close>

definition py_slice :: "'a list \<Rightarrow> int \<Rightarrow> int \<Rightarrow> 'a list" where
  "py_slice xs i j =
     (let n = int (length xs);
          lo = (if i < 0 then max 0 (n + i) else min n i);
          hi = (if j < 0 then max 0 (n + j) else min n j)
      in take (nat (hi - lo)) (drop (nat lo) xs))"

subsection \<open>\<^verbatim>\<open>int(s)\<close> and \<^verbatim>\<open>"{:02d}".format(n)\<close>\<close>

text \<open>
  \<^verbatim>\<open>int(s)\<close> in base 10: surrounding whitespace is dropped (for \<^verbatim>\<open>int\<close> the
  code points 9-13, 32, 133 and 160; the separators 28-31 are not accepted here), then
  an optional sign, then decimal digits, where single underscores may stand between two
  digits. Anything else is a \<^verbatim>\<open>ValueError\<close>.
\<close>

definition int_space :: "char \<Rightarrow> bool" where
  "int_space c = (let n = (of_char c :: nat) in
     (9 \<le> n \<and> n \<le> 13) \<or> n = 32 \<or> n = 133 \<or> n = 160)"

definition digit_val :: "char \<Rightarrow> nat option" where
  "digit_val c = (let n = (of_char c :: nat) in
     if 48 \<le> n \<and> n \<le> 57 then Some (n - 48) else None)"

fun int_body :: "nat \<Rightarrow> string \<Rightarrow> nat option" where
  "int_body acc [] = Some acc"
| "int_body acc (c # cs) =
     (if c = CHR ''_''
      then (case cs of
              [] \<Rightarrow> None
            | d # ds \<Rightarrow> (case digit_val d of
                           None \<Rightarrow> None
                         | Some v \<Rightarrow> int_body (10 * acc + v) ds))
      else (case digit_val c of
              None \<Rightarrow> None
            | Some v \<Rightarrow> int_body (10 * acc + v) cs))"

definition int_literal :: "string \<Rightarrow> nat option" where
  "int_literal s = (case s of
       [] \<Rightarrow> None
     | d # ds \<Rightarrow> (case digit_val d of None \<Rightarrow> None | Some v \<Rightarrow> int_body v ds))"

definition py_int :: "string \<Rightarrow> py_error + int" where
  "py_int s =
     (let t = rev (dropWhile int_space (rev (dropWhile int_space s)));
          r = (case t of
                 [] \<Rightarrow> None
               | c # cs \<Rightarrow>
                   if c = CHR ''-'' then map_option (\<lambda>n. - int n) (int_literal cs)
                   else if c = CHR ''+'' then map_option int (int_literal cs)
                   else map_option int (int_literal t))
      in case r of None \<Rightarrow> Inl (ValueError (InvalidLiteral s)) | Some n \<Rightarrow> Inr n)"

definition digit_char :: "nat \<Rightarrow> char" where
  "digit_char n = char_of (48 + n)"

fun digits :: "nat \<Rightarrow> string" where
  "digits n = (if n < 10 then [digit_char n] else digits (n div 10) @ [digit_char (n mod 10)])"

declare digits.simps [simp del]

text \<open>\<^verbatim>\<open>"{:02d}".format(n)\<close>: sign-aware zero padding to width 2.\<close>

definition format_02d :: "int \<Rightarrow> string" where
  "format_02d n =
     (if n < 0 then CHR ''-'' # digits (nat (- n))
      else if n < 10 then CHR ''0'' # digits (nat n)
      else digits (nat n))"

subsection \<open>\<^verbatim>\<open>convert_time\<close>\<close>

text \<open>Lines 48-52 of \<^verbatim>\<open>convert_time\<close>, once \<^verbatim>\<open>is_pm\<close> is known.\<close>

definition to_24h :: "bool \<Rightarrow> string \<Rightarrow> py_error + string" where
  "to_24h is_pm nums =
     (let nums' = (if count_list nums CHR '':'' = 0 then nums @ '':00'' else nums)
      in bind_err (map_raising py_int (str_split '':'' nums')) (\<lambda>hm.
         bind_err (unpack2 hm) (\<lambda>(hours, minutes).
           Inr (format_02d (hours + (if is_pm \<and> hours \<noteq> 12 then 12 else 0))
                @ '':'' @ format_02d minutes))))"

definition convert_time :: "string \<Rightarrow> py_error + string" where
  "convert_time ts =
     bind_err (unpack2 (str_split '' '' ts)) (\<lambda>(nums, sfx).
       if sfx = ''pm'' then to_24h True nums
       else if sfx = ''am'' then to_24h False nums
       else Inl (ValueError (CantParse ts)))"

subsection \<open>Floating point: \<^verbatim>\<open>int / int\<close> and \<^verbatim>\<open>round(x, n)\<close>\<close>

text \<open>
  A finite IEEE double is a rational number, and the model keeps a Python \<^verbatim>\<open>float\<close> as
  the \<^typ>\<open>rat\<close> it denotes (there is no signed zero, infinity or NaN in the model; the
  script produces none). True division of two integers returns the double nearest to
  the exact quotient, ties to the even significand, and raises \<^verbatim>\<open>OverflowError\<close> when
  that is beyond the largest double. \<^verbatim>\<open>round(x, n)\<close> rounds the exact value of the
  double \<^verbatim>\<open>x\<close> to \<^verbatim>\<open>n\<close> decimals, ties to even, and returns the double nearest to that
  decimal.
\<close>

fun bitlen :: "nat \<Rightarrow> nat" where
  "bitlen n = (if n = 0 then 0 else Suc (bitlen (n div 2)))"

declare bitlen.simps [simp del]

definition pow2 :: "int \<Rightarrow> rat" where
  "pow2 k = (if 0 \<le> k then 2 ^ nat k else 1 / 2 ^ nat (- k))"

text \<open>For \<open>0 < a\<close> and \<open>0 < d\<close>: the \<open>e\<close> with \<open>2\<^sup>e \<le> a / d < 2\<^sup>e\<^sup>+\<^sup>1\<close>.\<close>

definition ilog2 :: "int \<Rightarrow> int \<Rightarrow> int" where
  "ilog2 a d =
     (if d \<le> a then int (bitlen (nat (a div d))) - 1
      else - int (bitlen (nat ((d + a - 1) div a - 1))))"

definition round_half_even :: "rat \<Rightarrow> int" where
  "round_half_even y =
     (let f = \<lfloor>y\<rfloor>; r = y - of_int f
      in if r < 1 / 2 then f
         else if 1 / 2 < r then f + 1
         else if even f then f else f + 1)"

text \<open>The double nearest to \<open>n / d\<close> for \<open>0 < d\<close>; \<open>None\<close> when it overflows. The
  significand has 53 bits, the unit in the last place is \<open>2\<^sup>u\<close> and subnormal numbers
  have \<open>u = -1074\<close>.\<close>

definition nearest_double :: "int \<Rightarrow> int \<Rightarrow> rat option" where
  "nearest_double n d =
     (if n = 0 then Some 0
      else
        (let a = \<bar>n\<bar>;
             u = max (ilog2 a d - 52) (- 1074);
             m = round_half_even (of_int a / (of_int d * pow2 u));
             r = of_int m * pow2 u
         in if 2 ^ 1024 \<le> r then None
            else Some (if n < 0 then - r else r)))"

text \<open>\<^verbatim>\<open>n / d\<close> for two Python integers and a positive \<^verbatim>\<open>d\<close>.\<close>

definition int_truediv :: "int \<Rightarrow> int \<Rightarrow> py_error + rat" where
  "int_truediv n d =
     (case nearest_double n d of None \<Rightarrow> Inl OverflowError | Some x \<Rightarrow> Inr x)"

text \<open>\<^verbatim>\<open>round(x, ndigits)\<close> for a float \<^verbatim>\<open>x\<close> and a small non-negative \<^verbatim>\<open>ndigits\<close>.\<close>

definition py_round :: "rat \<Rightarrow> nat \<Rightarrow> py_error + rat" where
  "py_round x ndigits =
     (case nearest_double (round_half_even (x * 10 ^ ndigits)) (10 ^ ndigits) of
        None \<Rightarrow> Inl OverflowError
      | Some y \<Rightarrow> Inr y)"

subsection \<open>\<^verbatim>\<open>calculate_length\<close>\<close>

definition calculate_length :: "string \<Rightarrow> string \<Rightarrow> py_error + rat" where
  "calculate_length start end' =
     bind_err (map_raising py_int (str_split '':'' start)) (\<lambda>s.
     bind_err (unpack2 s) (\<lambda>(s_hours, s_mins).
     bind_err (map_raising py_int (str_split '':'' end')) (\<lambda>e.
     bind_err (unpack2 e) (\<lambda>(e_hours, e_mins).
       int_truediv (((e_hours * 60) + e_mins) - ((s_hours * 60) + s_mins)) 60))))"

subsection \<open>Session elements and session records\<close>

text \<open>
  The HTML parser is a library and is not modelled. A session element is what the script
  reads from it: for each selector passed to \<^verbatim>\<open>get_text\<close>, the \<^verbatim>\<open>text_content()\<close> of
  the elements \<^verbatim>\<open>el.cssselect(sel)\<close> returns, in document order, and for the elements
  matching \<^verbatim>\<open>.event-title a\<close> their \<^verbatim>\<open>href\<close> attribute, if they have one.
\<close>

datatype selector =
    Event_speakers    \<comment> \<open>\<^verbatim>\<open>.event-speakers\<close>\<close>
  | Event_meta_p      \<comment> \<open>\<^verbatim>\<open>.event-meta p\<close>\<close>
  | Event_title       \<comment> \<open>\<^verbatim>\<open>.event-title\<close>\<close>
  | Event_type        \<comment> \<open>\<^verbatim>\<open>.event-type\<close>\<close>
  | Event_content_p   \<comment> \<open>\<^verbatim>\<open>.event-content p:not(.event-speakers)\<close>\<close>
  | Event_meta_h4     \<comment> \<open>\<^verbatim>\<open>.event-meta h4\<close>\<close>

record element =
  text_contents :: "selector \<Rightarrow> string list"
  title_links :: "string option list"

text \<open>The \<^verbatim>\<open>OrderedDict\<close> that \<^verbatim>\<open>parse_session\<close> returns, with its eleven keys.\<close>

record session =
  title :: "string option"
  type :: "string option"
  description :: "string option"
  speakers :: "string option"
  date :: string
  time_start :: string
  time_end :: string
  length_in_hours :: rat
  room :: "string option"
  event_id :: string
  event_url :: string

subsection \<open>\<^verbatim>\<open>parse_session\<close> and \<^verbatim>\<open>parse_day\<close>\<close>

text \<open>The body of \<^verbatim>\<open>get_text\<close> on the texts of the matched elements: strip each, join
  the non-empty ones with a blank line, and give \<^verbatim>\<open>None\<close> when nothing is left.\<close>

definition join_stripped :: "string list \<Rightarrow> string option" where
  "join_stripped texts =
     (let stripped = map strip texts;
          joined = str_join [CHR 0x0A, CHR 0x0A] (filter (\<lambda>s. length s \<noteq> 0) stripped)
      in if joined = [] then None else Some joined)"

definition get_text :: "element \<Rightarrow> selector \<Rightarrow> string option" where
  "get_text el sel = join_stripped (text_contents el sel)"

text \<open>
  \<^verbatim>\<open>re.sub(r"^Speakers?:\s+", "", speakers_raw)\<close>. Without \<^verbatim>\<open>re.MULTILINE\<close> the
  anchor matches at position 0 only, so there is at most one match. The matcher tries
  the optional \<^verbatim>\<open>s\<close> first and falls back to the pattern without it; \<^verbatim>\<open>\s+\<close> takes one
  whitespace character and then as many as follow.
\<close>

definition colon_spaces :: "string \<Rightarrow> string option" where
  "colon_spaces r =
     (case r of
        c # w # rest \<Rightarrow>
          if c = CHR '':'' \<and> isspace w then Some (dropWhile isspace rest) else None
      | _ \<Rightarrow> None)"

definition speakers_label :: "string \<Rightarrow> string option" where
  "speakers_label s =
     (if prefix ''Speaker'' s
      then (let r = drop 7 s;
                with_s = (case r of
                            [] \<Rightarrow> None
                          | c # t \<Rightarrow> if c = CHR ''s'' then colon_spaces t else None)
            in case with_s of Some rest \<Rightarrow> Some rest | None \<Rightarrow> colon_spaces r)
      else None)"

definition sub_speakers :: "string \<Rightarrow> string" where
  "sub_speakers s = (case speakers_label s of None \<Rightarrow> s | Some rest \<Rightarrow> rest)"

definition parse_session :: "element \<Rightarrow> string \<Rightarrow> py_error + session" where
  "parse_session el date' =
     (let speakers_raw = get_text el Event_speakers;
          s_speakers = (case speakers_raw of
                          None \<Rightarrow> None
                        | Some raw \<Rightarrow> Some (sub_speakers raw))
      in case get_text el Event_meta_p of
           None \<Rightarrow> Inl AttributeError
         | Some s_time \<Rightarrow>
             bind_err (unpack_map2 convert_time (str_split '' - '' s_time))
               (\<lambda>(time_start', time_end').
                  case title_links el of
                    [] \<Rightarrow> Inl IndexError
                  | None # _ \<Rightarrow> Inl KeyError
                  | Some s_href # _ \<Rightarrow>
                      (let s_id = str_join ''/'' (py_slice (str_split ''/'' s_href) (- 3) (- 1))
                       in bind_err (calculate_length time_start' time_end') (\<lambda>len.
                          bind_err (py_round len 3) (\<lambda>rounded.
                            Inr \<lparr> title = get_text el Event_title,
                                  type = get_text el Event_type,
                                  description = get_text el Event_content_p,
                                  speakers = s_speakers,
                                  date = date',
                                  time_start = time_start',
                                  time_end = time_end',
                                  length_in_hours = rounded,
                                  room = get_text el Event_meta_h4,
                                  event_id = s_id,
                                  event_url = ''https://ire.org'' @ s_href \<rparr>)))))"

text \<open>A day element is the list of its children, \<^verbatim>\<open>list(el)\<close>.\<close>

definition parse_day :: "element list \<Rightarrow> string \<Rightarrow> py_error + session list" where
  "parse_day el date' = map_raising (\<lambda>s. parse_session s date') el"

subsection \<open>\<^verbatim>\<open>fix_encoding\<close>\<close>

text \<open>
  Bytes and code points are natural numbers here, since the repaired text may hold any
  code point. \<open>utf8_decode\<close> is the strict decoder of \<^verbatim>\<open>bytes.decode("utf-8")\<close>: no
  overlong forms, no surrogates, nothing above \<open>U+10FFFF\<close>; \<open>None\<close> stands for
  \<^verbatim>\<open>UnicodeDecodeError\<close>.
\<close>

definition is_lead :: "nat \<Rightarrow> bool" where
  "is_lead c = (0xC2 \<le> c \<and> c \<le> 0xF4)"

definition is_cont :: "nat \<Rightarrow> bool" where
  "is_cont c = (0x80 \<le> c \<and> c \<le> 0xBF)"

fun utf8_decode :: "nat list \<Rightarrow> nat list option" where
  "utf8_decode [] = Some []"
| "utf8_decode (b # bs) =
     (if b < 0x80 then map_option ((#) b) (utf8_decode bs)
      else if 0xC2 \<le> b \<and> b \<le> 0xDF then
        (case bs of
           c1 # r \<Rightarrow>
             if is_cont c1
             then map_option ((#) ((b - 0xC0) * 64 + (c1 - 0x80))) (utf8_decode r)
             else None
         | _ \<Rightarrow> None)
      else if 0xE0 \<le> b \<and> b \<le> 0xEF then
        (case bs of
           c1 # c2 # r \<Rightarrow>
             if (if b = 0xE0 then 0xA0 else 0x80) \<le> c1
                \<and> c1 \<le> (if b = 0xED then 0x9F else 0xBF) \<and> is_cont c2
             then map_option
                    ((#) ((b - 0xE0) * 4096 + (c1 - 0x80) * 64 + (c2 - 0x80)))
                    (utf8_decode r)
             else None
         | _ \<Rightarrow> None)
      else if 0xF0 \<le> b \<and> b \<le> 0xF4 then
        (case bs of
           c1 # c2 # c3 # r \<Rightarrow>
             if (if b = 0xF0 then 0x90 else 0x80) \<le> c1
                \<and> c1 \<le> (if b = 0xF4 then 0x8F else 0xBF) \<and> is_cont c2 \<and> is_cont c3
             then map_option
                    ((#) ((b - 0xF0) * 262144 + (c1 - 0x80) * 4096
                          + (c2 - 0x80) * 64 + (c3 - 0x80)))
                    (utf8_decode r)
             else None
         | _ \<Rightarrow> None)
      else None)"

text \<open>The replacement function \<^verbatim>\<open>fix\<close> of the source:
  \<^verbatim>\<open>m.group(0).encode("latin-1").decode("utf-8")\<close>\<close>

definition fix_match :: "nat list \<Rightarrow> py_error + nat list" where
  "fix_match m =
     (if \<exists>c \<in> set m. 256 \<le> c then Inl UnicodeEncodeError
      else (case utf8_decode m of None \<Rightarrow> Inl UnicodeDecodeError | Some t \<Rightarrow> Inr t))"

text \<open>
  \<^verbatim>\<open>re.sub(pat, fix, text)\<close> for \<^verbatim>\<open>pat = r"[\xc2-\xf4][\x80-\xbf]+"\<close>: the text is
  scanned from the left; a match starts at a lead character followed by a continuation
  character and takes all continuation characters that follow; the search goes on
  behind the match.
\<close>

function re_sub_fix :: "nat list \<Rightarrow> py_error + nat list" where
  "re_sub_fix [] = Inr []"
| "re_sub_fix (c # cs) =
     (if is_lead c \<and> cs \<noteq> [] \<and> is_cont (hd cs)
      then bind_err (fix_match (c # takeWhile is_cont cs)) (\<lambda>r.
           bind_err (re_sub_fix (dropWhile is_cont cs)) (\<lambda>t. Inr (r @ t)))
      else bind_err (re_sub_fix cs) (\<lambda>t. Inr (c # t)))"
  by pat_completeness auto
termination
  by (relation "measure length") (auto simp: length_dropWhile_le less_Suc_eq_le)

definition fix_encoding :: "nat list \<Rightarrow> py_error + nat list" where
  "fix_encoding string' =
     (case utf8_decode string' of
        None \<Rightarrow> Inl UnicodeDecodeError
      | Some text' \<Rightarrow> re_sub_fix text')"

subsection \<open>\<^verbatim>\<open>get_sessions\<close>\<close>

definition DATES :: "string list" where
  "DATES = [''2019-03-06'', ''2019-03-07'', ''2019-03-08'', ''2019-03-09'', ''2019-03-10'']"

text \<open>\<^verbatim>\<open>itemgetter("date", "time_start", "time_end", "title")\<close>\<close>

type_synonym sort_key = "string \<times> string \<times> string \<times> string option"

definition itemgetter :: "session \<Rightarrow> sort_key" where
  "itemgetter s = (date s, time_start s, time_end s, title s)"

text \<open>
  \<^verbatim>\<open>k1 < k2\<close> for two such tuples: the first position where the items are not equal
  decides. Strings compare by code point, a proper prefix being smaller (the order of
  \<open>List_Lexorder\<close> over \<open>Char_ord\<close>). \<^verbatim>\<open>None\<close> equals \<^verbatim>\<open>None\<close>, and \<^verbatim>\<open>None < str\<close>
  and \<^verbatim>\<open>str < None\<close> raise \<^verbatim>\<open>TypeError\<close>.
\<close>

fun tuple_lt :: "sort_key \<Rightarrow> sort_key \<Rightarrow> py_error + bool" where
  "tuple_lt (d1, s1, e1, t1) (d2, s2, e2, t2) =
     (if d1 \<noteq> d2 then Inr (d1 < d2)
      else if s1 \<noteq> s2 then Inr (s1 < s2)
      else if e1 \<noteq> e2 then Inr (e1 < e2)
      else if t1 = t2 then Inr False
      else (case (t1, t2) of
              (Some a, Some b) \<Rightarrow> Inr (a < b)
            | _ \<Rightarrow> Inl TypeError))"

text \<open>
  \<^verbatim>\<open>sorted(xs, key=itemgetter(...))\<close>. The library's sort is stable and compares keys
  with \<^verbatim>\<open><\<close> only. It is modelled by a stable insertion sort that asks the same
  question: each element, from the left, is put behind the elements of the sorted part
  that are not greater, and an exception of a comparison ends the sort.
\<close>

fun insert_sorted :: "session \<Rightarrow> session list \<Rightarrow> py_error + session list" where
  "insert_sorted x [] = Inr [x]"
| "insert_sorted x (y # ys) =
     bind_err (tuple_lt (itemgetter x) (itemgetter y)) (\<lambda>lt.
       if lt then Inr (x # y # ys)
       else bind_err (insert_sorted x ys) (\<lambda>zs. Inr (y # zs)))"

fun sort_into :: "session list \<Rightarrow> session list \<Rightarrow> py_error + session list" where
  "sort_into acc [] = Inr acc"
| "sort_into acc (x # xs) = bind_err (insert_sorted x acc) (\<lambda>acc'. sort_into acc' xs)"

definition py_sorted :: "session list \<Rightarrow> py_error + session list" where
  "py_sorted xs = sort_into [] xs"

text \<open>
  \<^verbatim>\<open>get_sessions\<close> from line 128 on. The argument is the list of day elements that
  \<^verbatim>\<open>dom.cssselect("ul.schedule-list.pane")\<close> returns for the fetched page; \<open>extract_sessions\<close>
  is the chained list of lines 129-131, before it is sorted.
\<close>

definition extract_sessions :: "element list list \<Rightarrow> py_error + session list" where
  "extract_sessions day_els =
     (let days_zipped = zip day_els DATES
      in bind_err (map_raising (\<lambda>(el, date'). parse_day el date') days_zipped)
           (\<lambda>sessions_nested. Inr (concat sessions_nested)))"

definition get_sessions :: "element list list \<Rightarrow> py_error + session list" where
  "get_sessions day_els = bind_err (extract_sessions day_els) py_sorted"

section \<open>Notions used to state the properties\<close>

text \<open>A non-empty string of the ASCII digits \<open>0\<close> to \<open>9\<close>, and the number it denotes
  in base 10.\<close>

definition is_digits :: "string \<Rightarrow> bool" where
  "is_digits s = (s \<noteq> [] \<and> (\<forall>c \<in> set s. digit_val c \<noteq> None))"

definition decimal :: "string \<Rightarrow> nat" where
  "decimal s = foldl (\<lambda>acc c. 10 * acc + the (digit_val c)) 0 s"

text \<open>
  The order the sort is expected to establish: \<^verbatim>\<open>k1 <= k2\<close> for two keys, by date,
  then start time, then end time, then title, each under the lexical order of strings.
  Two absent titles are equal; an absent and a present title are not ordered.
\<close>

fun key_le :: "sort_key \<Rightarrow> sort_key \<Rightarrow> bool" where
  "key_le (d1, s1, e1, t1) (d2, s2, e2, t2) =
     (d1 < d2 \<or> (d1 = d2 \<and>
       (s1 < s2 \<or> (s1 = s2 \<and>
         (e1 < e2 \<or> (e1 = e2 \<and>
           (t1 = t2 \<or> (case (t1, t2) of (Some a, Some b) \<Rightarrow> a < b | _ \<Rightarrow> False))))))))"

definition session_le :: "session \<Rightarrow> session \<Rightarrow> bool" where
  "session_le a b = key_le (itemgetter a) (itemgetter b)"

text \<open>Two sessions of the same date, start and end of which exactly one has no title.\<close>

definition title_clash :: "session \<Rightarrow> session \<Rightarrow> bool" where
  "title_clash a b =
     (date a = date b \<and> time_start a = time_start b \<and> time_end a = time_end b
      \<and> (title a = None) \<noteq> (title b = None))"

text \<open>
  Session elements for concrete checks: an element with the given texts under
  \<^verbatim>\<open>.event-title\<close>, \<^verbatim>\<open>.event-meta p\<close> and \<^verbatim>\<open>.event-speakers\<close>, nothing under the other
  selectors, and the given title links.
\<close>

definition mk_element ::
  "string list \<Rightarrow> string list \<Rightarrow> string list \<Rightarrow> string option list \<Rightarrow> element" where
  "mk_element ttl tms spk lnk =
     \<lparr> text_contents =
         (\<lambda>sel. case sel of
                  Event_title \<Rightarrow> ttl
                | Event_meta_p \<Rightarrow> tms
                | Event_speakers \<Rightarrow> spk
                | _ \<Rightarrow> []),
       title_links = lnk \<rparr>"

text \<open>A page of two days: three sessions on the first, two of them in the same slot and
  listed in the wrong order, and one session on the second.\<close>

definition el_bots :: element where
  "el_bots = mk_element [''Bots''] [''9 am - 10 am''] [] [Some ''/events/nicar/s/2/'']"

definition el_ants :: element where
  "el_ants = mk_element [''Ants''] [''9 am - 10 am''] [] [Some ''/events/nicar/s/1/'']"

definition el_cats :: element where
  "el_cats = mk_element [''Cats''] [''8 am - 9:30 am''] [] [Some ''/events/nicar/s/3/'']"

definition el_dogs :: element where
  "el_dogs = mk_element [''Dogs''] [''8 am - 9 am''] [] [Some ''/events/nicar/s/4/'']"

definition two_days :: "element list list" where
  "two_days = [[el_bots, el_ants, el_cats], [el_dogs]]"

text \<open>The record of a session that has a title, a time window and an identifier only.\<close>

definition mk_session ::
  "string option \<Rightarrow> string \<Rightarrow> string \<Rightarrow> string \<Rightarrow> rat \<Rightarrow> string \<Rightarrow> string \<Rightarrow> session" where
  "mk_session ttl d ts te len eid href =
     \<lparr> title = ttl, type = None, description = None, speakers = None, date = d,
       time_start = ts, time_end = te, length_in_hours = len, room = None,
       event_id = eid, event_url = ''https://ire.org'' @ href \<rparr>"

text \<open>Two sessions in the same slot whose title elements hold white space only, and a
  session whose title link has a one-segment \<^verbatim>\<open>href\<close>.\<close>

definition el_blank1 :: element where
  "el_blank1 = mk_element ['' ''] [''9 am - 10 am''] [] [Some ''/events/nicar/s/5/'']"

definition el_blank2 :: element where
  "el_blank2 = mk_element ['' ''] [''9 am - 10 am''] [] [Some ''/events/nicar/s/6/'']"

definition el_short_href :: element where
  "el_short_href = mk_element [''Bots''] [''9 am - 10 am''] [] [Some ''abc'']"

text \<open>A session that ends before it starts, and one whose speakers label is followed by
  two spaces.\<close>

definition el_backwards :: element where
  "el_backwards = mk_element [''Bots''] [''10 am - 9 am''] [] [Some ''/events/nicar/s/2/'']"

definition el_two_spaces :: element where
  "el_two_spaces =
     mk_element [''Bots''] [''9 am - 10 am''] [''Speakers:  Bob''] [Some ''/events/nicar/s/2/'']"

text \<open>The speakers label read literally: the prefix \<^verbatim>\<open>"Speakers: "\<close> or
  \<^verbatim>\<open>"Speaker: "\<close>, with exactly one space, is removed.\<close>

definition strip_label_literal :: "string \<Rightarrow> string" where
  "strip_label_literal raw =
     (if prefix ''Speakers: '' raw then drop 10 raw
      else if prefix ''Speaker: '' raw then drop 9 raw
      else raw)"

section \<open>Properties\<close>

subsection \<open>Sequencing, splitting and integer literals\<close>

lemma bind_err_simps [simp]:
  "bind_err (Inl e) f = Inl e" "bind_err (Inr x) f = f x"
  by (simp_all add: bind_err_def)

lemma bind_err_eq_Inr:
  "bind_err m f = Inr y \<longleftrightarrow> (\<exists>x. m = Inr x \<and> f x = Inr y)"
  by (cases m) simp_all

lemma bind_err_eq_Inl:
  "bind_err m f = Inl e \<longleftrightarrow> m = Inl e \<or> (\<exists>x. m = Inr x \<and> f x = Inl e)"
  by (cases m) simp_all

lemma str_split_nonempty: "str_split sep s \<noteq> []"
  by (induction sep s rule: str_split.induct) (auto split: list.splits)

lemma split_char_notin: "c \<notin> set s \<Longrightarrow> str_split [c] s = [s]"
  by (induction s) auto

lemma split_char_append:
  "c \<notin> set a \<Longrightarrow> str_split [c] (a @ c # b) = a # str_split [c] b"
  by (induction a) auto

lemma digit_val_Some_iff: "digit_val c = Some v \<longleftrightarrow> 48 \<le> (of_char c :: nat) \<and> (of_char c :: nat) \<le> 57 \<and> v = of_char c - 48"
  by (auto simp: digit_val_def Let_def)

lemma digit_not_special:
  assumes "digit_val c \<noteq> None"
  shows "c \<noteq> CHR '' ''" "c \<noteq> CHR '':''" "c \<noteq> CHR ''_''" "c \<noteq> CHR ''-''" "c \<noteq> CHR ''+''" "\<not> int_space c"
  using assms by (auto simp: digit_val_def int_space_def Let_def split: if_splits)

lemma int_body_digits:
  "\<forall>c \<in> set s. digit_val c \<noteq> None \<Longrightarrow>
   int_body acc s = Some (foldl (\<lambda>acc c. 10 * acc + the (digit_val c)) acc s)"
  by (induction s arbitrary: acc) (auto simp: digit_not_special)

lemma int_literal_digits: "is_digits s \<Longrightarrow> int_literal s = Some (decimal s)"
  by (cases s) (auto simp: is_digits_def int_literal_def decimal_def int_body_digits)

lemma dropWhile_rev_digits:
  assumes "is_digits s"
  shows "rev (dropWhile int_space (rev (dropWhile int_space s))) = s"
proof -
  from assms obtain c cs where s: "s = c # cs" by (cases s) (auto simp: is_digits_def)
  have 1: "dropWhile int_space s = s" using assms s by (simp add: is_digits_def digit_not_special)
  have "rev s \<noteq> []" using s by simp
  moreover have "\<not> int_space (hd (rev s))"
    using assms s by (metis digit_not_special(6) hd_rev is_digits_def last_in_set)
  ultimately have "dropWhile int_space (rev s) = rev s" by (cases "rev s") auto
  with 1 show ?thesis by simp
qed

lemma py_int_digits: "is_digits s \<Longrightarrow> py_int s = Inr (int (decimal s))"
  unfolding py_int_def dropWhile_rev_digits Let_def
  by (cases s) (auto simp: int_literal_digits is_digits_def digit_not_special)

lemma digits_no_sep:
  assumes "is_digits s"
  shows "CHR '' '' \<notin> set s" "CHR '':'' \<notin> set s"
proof -
  have "digit_val CHR '' '' = None" "digit_val CHR '':'' = None"
    by (simp_all add: digit_val_def)
  then show "CHR '' '' \<notin> set s" "CHR '':'' \<notin> set s"
    using assms unfolding is_digits_def by blast+
qed

lemma to_24h_digits_colon:
  assumes "is_digits hs" "is_digits ms"
  shows "to_24h is_pm (hs @ CHR '':'' # ms) =
         Inr (format_02d (int (decimal hs) + (if is_pm \<and> decimal hs \<noteq> 12 then 12 else 0))
              @ CHR '':'' # format_02d (int (decimal ms)))"
proof -
  have h: "CHR '':'' \<notin> set hs" and m: "CHR '':'' \<notin> set ms"
    using assms by (simp_all add: digits_no_sep)
  have sp: "str_split [CHR '':''] (hs @ CHR '':'' # ms) = [hs, ms]"
    using split_char_append[OF h, of ms] split_char_notin[OF m] by simp
  have c: "count_list (hs @ CHR '':'' # ms) CHR '':'' \<noteq> 0"
    by (simp add: count_list_0_iff)
  show ?thesis
    unfolding to_24h_def Let_def using c
    by (simp add: sp py_int_digits assms)
qed

lemma to_24h_digits:
  assumes "is_digits hs"
  shows "to_24h is_pm hs =
         Inr (format_02d (int (decimal hs) + (if is_pm \<and> decimal hs \<noteq> 12 then 12 else 0))
              @ '':00'')"
proof -
  have h: "CHR '':'' \<notin> set hs"
    using assms by (simp_all add: digits_no_sep)
  have sp: "str_split [CHR '':''] (hs @ '':00'') = [hs, ''00'']"
    using split_char_append[OF h, of "''00''"] by (simp add: split_char_notin)
  have z: "py_int ''00'' = Inr 0" by code_simp
  have f: "format_02d 0 = ''00''" by code_simp
  have c: "count_list hs CHR '':'' = 0"
    using h by (simp add: count_list_0_iff)
  show ?thesis
    unfolding to_24h_def Let_def
    by (simp add: c sp py_int_digits assms z f)
qed

lemma convert_time_split:
  assumes "CHR '' '' \<notin> set nums" "CHR '' '' \<notin> set sfx"
  shows "convert_time (nums @ CHR '' '' # sfx) =
     (if sfx = ''pm'' then to_24h True nums
       else if sfx = ''am'' then to_24h False nums
       else Inl (ValueError (CantParse (nums @ CHR '' '' # sfx))))"
proof -
  have "str_split [CHR '' ''] (nums @ CHR '' '' # sfx) = [nums, sfx]"
    using split_char_append[OF assms(1), of sfx] split_char_notin[OF assms(2)] by simp
  then show ?thesis by (simp add: convert_time_def)
qed

subsection \<open>\<^verbatim>\<open>convert_time\<close> on well-formed tokens\<close>

text \<open>
  C1. For a token \<^verbatim>\<open>"<nums> <suffix>"\<close> whose suffix is \<^verbatim>\<open>am\<close> or \<^verbatim>\<open>pm\<close> and whose
  numeric part is a decimal hour, with or without \<^verbatim>\<open>:<minutes>\<close>, \<^verbatim>\<open>convert_time\<close>
  splits off the suffix, takes the minutes as \<^verbatim>\<open>00\<close> when there is no colon, adds 12 to
  the hour exactly when the suffix is \<^verbatim>\<open>pm\<close> and the hour is not 12, and formats hour
  and minutes with two digits. In particular \<^verbatim>\<open>"8 am"\<close> gives \<^verbatim>\<open>"08:00"\<close>,
  \<^verbatim>\<open>"12:30 pm"\<close> gives \<^verbatim>\<open>"12:30"\<close>, \<^verbatim>\<open>"12 pm"\<close> gives \<^verbatim>\<open>"12:00"\<close> and \<^verbatim>\<open>"12 am"\<close>
  gives \<^verbatim>\<open>"12:00"\<close>.
\<close>

theorem convert_time_12h:
  "(\<forall>hs ms sfx. is_digits hs \<and> is_digits ms \<and> (sfx = ''am'' \<or> sfx = ''pm'') \<longrightarrow>
      convert_time (hs @ '' '' @ sfx) =
        Inr (format_02d (int (decimal hs) + (if sfx = ''pm'' \<and> decimal hs \<noteq> 12 then 12 else 0))
             @ '':00'')
    \<and> convert_time (hs @ '':'' @ ms @ '' '' @ sfx) =
        Inr (format_02d (int (decimal hs) + (if sfx = ''pm'' \<and> decimal hs \<noteq> 12 then 12 else 0))
             @ '':'' @ format_02d (int (decimal ms))))
   \<and> convert_time ''8 am'' = Inr ''08:00''
   \<and> convert_time ''12:30 pm'' = Inr ''12:30''
   \<and> convert_time ''12 pm'' = Inr ''12:00''
   \<and> convert_time ''12 am'' = Inr ''12:00''"
proof -
  have gen: "convert_time (hs @ '' '' @ sfx) =
        Inr (format_02d (int (decimal hs) + (if sfx = ''pm'' \<and> decimal hs \<noteq> 12 then 12 else 0))
             @ '':00'')
    \<and> convert_time (hs @ '':'' @ ms @ '' '' @ sfx) =
        Inr (format_02d (int (decimal hs) + (if sfx = ''pm'' \<and> decimal hs \<noteq> 12 then 12 else 0))
             @ '':'' @ format_02d (int (decimal ms)))"
    if "is_digits hs" "is_digits ms" "sfx = ''am'' \<or> sfx = ''pm''" for hs ms sfx
  proof -
    have 1: "CHR '' '' \<notin> set hs" "CHR '' '' \<notin> set ms"
      using that by (simp_all add: digits_no_sep)
    then have 2: "CHR '' '' \<notin> set (hs @ '':'' @ ms)" by simp
    have 3: "CHR '' '' \<notin> set sfx" using that(3) by auto
    have a: "convert_time (hs @ CHR '' '' # sfx) = to_24h (sfx = ''pm'') hs"
      using that(3) convert_time_split[OF 1(1) 3] by auto
    have b: "convert_time ((hs @ CHR '':'' # ms) @ CHR '' '' # sfx)
             = to_24h (sfx = ''pm'') (hs @ CHR '':'' # ms)"
      using that(3) convert_time_split[OF 2 3] by auto
    show ?thesis
      using a b by (simp add: to_24h_digits[OF that(1)] to_24h_digits_colon[OF that(1,2)])
  qed
  have e1: "convert_time ''8 am'' = Inr ''08:00''" by code_simp
  have e2: "convert_time ''12:30 pm'' = Inr ''12:30''" by code_simp
  have e3: "convert_time ''12 pm'' = Inr ''12:00''" by code_simp
  have e4: "convert_time ''12 am'' = Inr ''12:00''" by code_simp
  show ?thesis using gen e1 e2 e3 e4 by blast
qed


theorem convert_time_12h_witness:
  "is_digits ''7'' \<and> is_digits ''45''
   \<and> convert_time ''7 pm'' = Inr ''19:00''
   \<and> convert_time ''7:45 pm'' = Inr ''19:45''"
proof -
  have d: "is_digits ''7''" "is_digits ''45''"
    by (simp_all add: is_digits_def digit_val_def)
  have v: "decimal ''7'' = 7" "decimal ''45'' = 45"
    by (simp_all add: decimal_def digit_val_def)
  have f: "format_02d 19 = ''19''" "format_02d 45 = ''45''"
    by code_simp+
  have "convert_time (''7'' @ '' '' @ ''pm'') =
          Inr (format_02d (int (decimal ''7'')
                 + (if ''pm'' = ''pm'' \<and> decimal ''7'' \<noteq> 12 then 12 else 0)) @ '':00'')
        \<and> convert_time (''7'' @ '':'' @ ''45'' @ '' '' @ ''pm'') =
          Inr (format_02d (int (decimal ''7'')
                 + (if ''pm'' = ''pm'' \<and> decimal ''7'' \<noteq> 12 then 12 else 0))
               @ '':'' @ format_02d (int (decimal ''45'')))"
    using convert_time_12h d by blast
  then show ?thesis using d v f by simp
qed

subsection \<open>\<^verbatim>\<open>convert_time\<close> on other suffixes\<close>

lemma py_int_error: "py_int s = Inl e \<Longrightarrow> e = ValueError (InvalidLiteral s)"
  by (auto simp: py_int_def Let_def split: option.splits)

lemma map_raising_py_int_error:
  "map_raising py_int xs = Inl e \<Longrightarrow> \<exists>s. e = ValueError (InvalidLiteral s)"
  by (induction xs arbitrary: e) (auto simp: bind_err_eq_Inl dest: py_int_error)

lemma unpack2_error:
  "unpack2 xs = Inl e \<Longrightarrow> e = ValueError NotEnoughValues \<or> e = ValueError TooManyValues"
  by (induction xs rule: unpack2.induct) auto

lemma to_24h_error:
  assumes "to_24h is_pm nums = Inl e"
  shows "(\<exists>s. e = ValueError (InvalidLiteral s))
         \<or> e = ValueError NotEnoughValues \<or> e = ValueError TooManyValues"
  using assms unfolding to_24h_def Let_def
  by (auto simp: bind_err_eq_Inl dest: map_raising_py_int_error unpack2_error)

lemma to_24h_not_CantParse: "to_24h is_pm nums \<noteq> Inl (ValueError (CantParse x))"
  using to_24h_error[of is_pm nums "ValueError (CantParse x)"] by auto

text \<open>
  C5. When splitting the token at the space gives a numeric part and a suffix,
  \<^verbatim>\<open>convert_time\<close> raises its own \<^verbatim>\<open>ValueError("Can't parse " + ts)\<close> exactly when
  the suffix is neither \<^verbatim>\<open>am\<close> nor \<^verbatim>\<open>pm\<close>: for these two suffixes the suffix check
  never raises. Any token whose last space-separated part is neither of the two raises a
  \<^verbatim>\<open>ValueError\<close> and returns no value.
\<close>

theorem convert_time_bad_suffix:
  "(\<forall>ts nums sfx. str_split '' '' ts = [nums, sfx] \<longrightarrow>
      (convert_time ts = Inl (ValueError (CantParse ts)) \<longleftrightarrow> sfx \<noteq> ''am'' \<and> sfx \<noteq> ''pm''))
   \<and> (\<forall>ts. last (str_split '' '' ts) \<noteq> ''am'' \<and> last (str_split '' '' ts) \<noteq> ''pm'' \<longrightarrow>
         (\<exists>v. convert_time ts = Inl (ValueError v)))"
proof (intro conjI allI impI)
  fix ts nums sfx
  assume sp: "str_split '' '' ts = [nums, sfx]"
  show "convert_time ts = Inl (ValueError (CantParse ts)) \<longleftrightarrow> sfx \<noteq> ''am'' \<and> sfx \<noteq> ''pm''"
    by (simp add: convert_time_def sp to_24h_not_CantParse)
next
  fix ts
  assume l: "last (str_split '' '' ts) \<noteq> ''am'' \<and> last (str_split '' '' ts) \<noteq> ''pm''"
  show "\<exists>v. convert_time ts = Inl (ValueError v)"
  proof (cases "unpack2 (str_split '' '' ts)")
    case (Inl e)
    then show ?thesis
      using unpack2_error[OF Inl] by (auto simp: convert_time_def)
  next
    case (Inr p)
    then obtain nums sfx where "str_split '' '' ts = [nums, sfx]"
      by (cases "str_split '' '' ts" rule: unpack2.cases) auto
    then show ?thesis using l by (simp add: convert_time_def)
  qed
qed

theorem convert_time_bad_suffix_witness:
  "str_split '' '' ''8 xm'' = [''8'', ''xm'']
   \<and> convert_time ''8 xm'' = Inl (ValueError (CantParse ''8 xm''))
   \<and> convert_time ''8'' = Inl (ValueError NotEnoughValues)"
proof -
  have sp: "str_split '' '' ''8 xm'' = [''8'', ''xm'']" by code_simp
  have 1: "convert_time ''8 xm'' = Inl (ValueError (CantParse ''8 xm''))"
    using convert_time_bad_suffix sp by blast
  have 2: "convert_time ''8'' = Inl (ValueError NotEnoughValues)" by code_simp
  show ?thesis using sp 1 2 by simp
qed

subsection \<open>\<^verbatim>\<open>fix_encoding\<close>\<close>

lemma re_sub_fix_no_match:
  assumes "\<not> (\<exists>i. Suc i < length t \<and> is_lead (t ! i) \<and> is_cont (t ! Suc i))"
  shows "re_sub_fix t = Inr t"
  using assms
proof (induction t)
  case Nil
  then show ?case by simp
next
  case (Cons c cs)
  have tl: "\<not> (\<exists>i. Suc i < length cs \<and> is_lead (cs ! i) \<and> is_cont (cs ! Suc i))"
  proof
    assume "\<exists>i. Suc i < length cs \<and> is_lead (cs ! i) \<and> is_cont (cs ! Suc i)"
    then obtain i where "Suc i < length cs" "is_lead (cs ! i)" "is_cont (cs ! Suc i)"
      by blast
    then have "Suc (Suc i) < length (c # cs) \<and> is_lead ((c # cs) ! Suc i)
               \<and> is_cont ((c # cs) ! Suc (Suc i))"
      by simp
    with Cons.prems show False by blast
  qed
  have hd: "\<not> (is_lead c \<and> cs \<noteq> [] \<and> is_cont (hd cs))"
  proof
    assume a: "is_lead c \<and> cs \<noteq> [] \<and> is_cont (hd cs)"
    then have "Suc 0 < length (c # cs) \<and> is_lead ((c # cs) ! 0) \<and> is_cont ((c # cs) ! Suc 0)"
      by (cases cs) auto
    with Cons.prems show False by blast
  qed
  from hd have "re_sub_fix (c # cs) = bind_err (re_sub_fix cs) (\<lambda>t. Inr (c # t))"
    by auto
  then show ?case using Cons.IH[OF tl] by simp
qed

lemma ascii_no_match:
  assumes "\<forall>c \<in> set t. c < 128"
  shows "\<not> (\<exists>i. Suc i < length t \<and> is_lead (t ! i) \<and> is_cont (t ! Suc i))"
proof
  assume "\<exists>i. Suc i < length t \<and> is_lead (t ! i) \<and> is_cont (t ! Suc i)"
  then obtain i where i: "Suc i < length t" "is_lead (t ! i)" by blast
  then have "t ! i \<in> set t" by simp
  with assms have "t ! i < 128" by blast
  with i(2) show False by (simp add: is_lead_def)
qed

lemma utf8_decode_ascii: "\<forall>b \<in> set bs. b < 128 \<Longrightarrow> utf8_decode bs = Some bs"
  by (induction bs) auto

text \<open>
  C7. On a text with no lead character (\<open>0xC2\<close> to \<open>0xF4\<close>) directly followed by a
  continuation character (\<open>0x80\<close> to \<open>0xBF\<close>) the substitution returns the text
  unchanged, so applying it again changes nothing; this holds in particular for plain
  ASCII, as text and as bytes. The two characters \<open>0xC3 0xA9\<close>, which are the UTF-8
  bytes of \<open>U+00E9\<close> read as Latin-1, are replaced by the one character \<open>U+00E9\<close>.
\<close>

theorem fix_encoding_identity:
  "(\<forall>t. \<not> (\<exists>i. Suc i < length t \<and> is_lead (t ! i) \<and> is_cont (t ! Suc i)) \<longrightarrow>
        re_sub_fix t = Inr t \<and> bind_err (re_sub_fix t) re_sub_fix = Inr t)
   \<and> (\<forall>t. (\<forall>c \<in> set t. c < 128) \<longrightarrow> re_sub_fix t = Inr t \<and> fix_encoding t = Inr t)
   \<and> re_sub_fix [0xC3, 0xA9] = Inr [0xE9]
   \<and> fix_encoding [0xC3, 0x83, 0xC2, 0xA9] = Inr [0xE9]"
proof (intro conjI allI impI)
  fix t :: "nat list"
  assume a: "\<not> (\<exists>i. Suc i < length t \<and> is_lead (t ! i) \<and> is_cont (t ! Suc i))"
  show "re_sub_fix t = Inr t" by (rule re_sub_fix_no_match[OF a])
  then show "bind_err (re_sub_fix t) re_sub_fix = Inr t" by simp
next
  fix t :: "nat list"
  assume a: "\<forall>c \<in> set t. c < 128"
  show r: "re_sub_fix t = Inr t"
    by (rule re_sub_fix_no_match[OF ascii_no_match[OF a]])
  show "fix_encoding t = Inr t"
    by (simp add: fix_encoding_def utf8_decode_ascii[OF a] r)
next
  show "re_sub_fix [0xC3, 0xA9] = Inr [0xE9]" by code_simp
next
  show "fix_encoding [0xC3, 0x83, 0xC2, 0xA9] = Inr [0xE9]" by code_simp
qed

theorem fix_encoding_identity_witness:
  "re_sub_fix [99, 97, 102, 0xE9] = Inr [99, 97, 102, 0xE9]
   \<and> fix_encoding [99, 97, 102, 101] = Inr [99, 97, 102, 101]"
proof -
  have "\<not> is_lead ([99, 97, 102, 0xE9] ! i)" if "Suc i < length [99, 97, 102, 0xE9 :: nat]" for i
  proof -
    from that have "i = 0 \<or> i = 1 \<or> i = 2" by auto
    then show ?thesis by (auto simp: is_lead_def)
  qed
  then have n: "\<not> (\<exists>i. Suc i < length [99, 97, 102, 0xE9 :: nat]
               \<and> is_lead ([99, 97, 102, 0xE9] ! i) \<and> is_cont ([99, 97, 102, 0xE9] ! Suc i))"
    by blast
  have a: "\<forall>c \<in> set [99, 97, 102, 101 :: nat]. c < 128" by simp
  have 1: "re_sub_fix [99, 97, 102, 0xE9] = Inr [99, 97, 102, 0xE9]"
    using fix_encoding_identity n by blast
  have 2: "fix_encoding [99, 97, 102, 101] = Inr [99, 97, 102, 101]"
    using fix_encoding_identity a by blast
  show ?thesis using 1 2 by simp
qed

subsection \<open>The sort\<close>

lemma tuple_lt_error: "tuple_lt a b = Inl e \<Longrightarrow> e = TypeError"
  by (cases a; cases b) (auto split: if_splits option.splits)

lemma tuple_lt_True: "tuple_lt a b = Inr True \<Longrightarrow> key_le a b \<and> \<not> key_le b a"
  by (cases a; cases b) (auto split: if_splits option.splits)

lemma tuple_lt_False: "tuple_lt a b = Inr False \<Longrightarrow> key_le b a"
  by (cases a; cases b) (auto split: if_splits option.splits)

lemma key_le_trans: "key_le a b \<Longrightarrow> key_le b c \<Longrightarrow> key_le a c"
  by (cases a; cases b; cases c) (auto split: option.splits)

lemma tuple_lt_clash:
  "tuple_lt (itemgetter a) (itemgetter b) = Inl TypeError \<longleftrightarrow> title_clash a b"
  by (cases "title a"; cases "title b") (auto simp: itemgetter_def title_clash_def)

lemma title_clash_sym: "title_clash a b \<Longrightarrow> title_clash b a"
  by (auto simp: title_clash_def)

lemma clash_behind_greater:
  assumes "tuple_lt (itemgetter x) (itemgetter y) = Inr True"
    and "session_le y z" and "\<not> title_clash y z"
  shows "\<not> title_clash x z"
  using assms
  by (auto simp: itemgetter_def title_clash_def session_le_def split: if_splits option.splits)

lemma insert_sorted_mset:
  "insert_sorted x ys = Inr zs \<Longrightarrow> mset zs = add_mset x (mset ys)"
  by (induction ys arbitrary: zs) (auto simp: bind_err_eq_Inr split: if_splits)
lemma insert_sorted_set:
  assumes "insert_sorted x ys = Inr zs"
  shows "set zs = insert x (set ys)"
proof -
  have "set_mset (mset zs) = set_mset (add_mset x (mset ys))"
    using insert_sorted_mset[OF assms] by simp
  then show ?thesis by simp
qed
lemma insert_sorted_sorted:
  assumes "insert_sorted x ys = Inr zs" and "sorted_wrt session_le ys"
  shows "sorted_wrt session_le zs"
  using assms
proof (induction ys arbitrary: zs)
  case Nil
  then show ?case by auto
next
  case (Cons y ys)
  from Cons.prems(1) obtain lt where lt: "tuple_lt (itemgetter x) (itemgetter y) = Inr lt"
    by (auto simp: bind_err_eq_Inr)
  show ?case
  proof (cases lt)
    case True
    with lt Cons.prems(1) have zs: "zs = x # y # ys" by auto
    have xy: "session_le x y"
      using tuple_lt_True lt True by (simp add: session_le_def)
    have "session_le x z" if "z \<in> set ys" for z
    proof -
      have "session_le y z" using Cons.prems(2) that by simp
      with xy show ?thesis unfolding session_le_def by (rule key_le_trans)
    qed
    with xy Cons.prems(2) show ?thesis by (simp add: zs)
  next
    case False
    with lt Cons.prems(1) obtain zs' where ins: "insert_sorted x ys = Inr zs'"
      and zs: "zs = y # zs'"
      by (auto simp: bind_err_eq_Inr)
    have yx: "session_le y x"
      using tuple_lt_False lt False by (simp add: session_le_def)
    have "sorted_wrt session_le zs'"
      using Cons.IH[OF ins] Cons.prems(2) by simp
    moreover have "\<forall>z \<in> set zs'. session_le y z"
      using insert_sorted_set[OF ins] yx Cons.prems(2) by auto
    ultimately show ?thesis by (simp add: zs)
  qed
qed
lemma insert_sorted_filter:
  assumes "insert_sorted x ys = Inr zs" and "sorted_wrt session_le ys"
  shows "filter (\<lambda>s. itemgetter s = k) zs
         = filter (\<lambda>s. itemgetter s = k) ys @ (if itemgetter x = k then [x] else [])"
  using assms
proof (induction ys arbitrary: zs)
  case Nil
  then show ?case by auto
next
  case (Cons y ys)
  from Cons.prems(1) obtain lt where lt: "tuple_lt (itemgetter x) (itemgetter y) = Inr lt"
    by (auto simp: bind_err_eq_Inr)
  show ?case
  proof (cases lt)
    case True
    with lt Cons.prems(1) have zs: "zs = x # y # ys" by auto
    have strict: "key_le (itemgetter x) (itemgetter y)"
      "\<not> key_le (itemgetter y) (itemgetter x)"
      using tuple_lt_True lt True by auto
    have "itemgetter z \<noteq> itemgetter x" if "z \<in> set (y # ys)" for z
    proof
      assume eq: "itemgetter z = itemgetter x"
      have "z = y \<or> session_le y z" using Cons.prems(2) that by auto
      then have "key_le (itemgetter y) (itemgetter x)"
        using eq strict(1) by (auto simp: session_le_def)
      with strict(2) show False by simp
    qed
    then have "itemgetter x = k \<Longrightarrow> filter (\<lambda>s. itemgetter s = k) (y # ys) = []"
      by (auto simp: filter_empty_conv)
    then show ?thesis by (auto simp: zs)
  next
    case False
    with lt Cons.prems(1) obtain zs' where ins: "insert_sorted x ys = Inr zs'"
      and zs: "zs = y # zs'"
      by (auto simp: bind_err_eq_Inr)
    have "filter (\<lambda>s. itemgetter s = k) zs'
          = filter (\<lambda>s. itemgetter s = k) ys @ (if itemgetter x = k then [x] else [])"
      using Cons.IH[OF ins] Cons.prems(2) by simp
    then show ?thesis by (simp add: zs)
  qed
qed
lemma sort_into_props:
  assumes "sort_into acc xs = Inr out" and "sorted_wrt session_le acc"
  shows "sorted_wrt session_le out \<and> mset out = mset acc + mset xs
         \<and> filter (\<lambda>s. itemgetter s = k) out
           = filter (\<lambda>s. itemgetter s = k) acc @ filter (\<lambda>s. itemgetter s = k) xs"
  using assms
proof (induction xs arbitrary: acc)
  case Nil
  then show ?case by simp
next
  case (Cons x xs)
  from Cons.prems(1) obtain acc' where ins: "insert_sorted x acc = Inr acc'"
    and rest: "sort_into acc' xs = Inr out"
    by (auto simp: bind_err_eq_Inr)
  have s: "sorted_wrt session_le acc'"
    by (rule insert_sorted_sorted[OF ins Cons.prems(2)])
  have m: "mset acc' = add_mset x (mset acc)"
    by (rule insert_sorted_mset[OF ins])
  have f: "filter (\<lambda>s. itemgetter s = k) acc'
         = filter (\<lambda>s. itemgetter s = k) acc @ (if itemgetter x = k then [x] else [])"
    by (rule insert_sorted_filter[OF ins Cons.prems(2)])
  show ?case using Cons.IH[OF rest s] m f by simp
qed
lemma py_sorted_props:
  assumes "py_sorted xs = Inr out"
  shows "sorted_wrt session_le out" and "mset out = mset xs"
    and "filter (\<lambda>s. itemgetter s = k) out = filter (\<lambda>s. itemgetter s = k) xs"
  using sort_into_props[of "[]" xs out k] assms by (simp_all add: py_sorted_def)

text \<open>When the sort raises: only \<^verbatim>\<open>TypeError\<close>, and exactly when two of the
  elements clash.\<close>

lemma insert_sorted_error:
  "insert_sorted x ys = Inl e \<Longrightarrow> e = TypeError \<and> (\<exists>y \<in> set ys. title_clash x y)"
proof (induction ys)
  case Nil
  then show ?case by simp
next
  case (Cons y ys)
  then show ?case
    by (auto simp: bind_err_eq_Inl tuple_lt_clash[symmetric] split: if_splits
             dest: tuple_lt_error)
qed

lemma insert_sorted_clash:
  assumes "\<exists>y \<in> set ys. title_clash x y"
    and "sorted_wrt session_le ys"
    and "\<forall>a \<in> set ys. \<forall>b \<in> set ys. \<not> title_clash a b"
  shows "insert_sorted x ys = Inl TypeError"
  using assms
proof (induction ys)
  case Nil
  then show ?case by simp
next
  case (Cons y ys)
  show ?case
  proof (cases "tuple_lt (itemgetter x) (itemgetter y)")
    case (Inl e)
    then show ?thesis using tuple_lt_error[OF Inl] by simp
  next
    case (Inr lt)
    then have nxy: "\<not> title_clash x y"
      using tuple_lt_clash[of x y] by simp
    with Cons.prems(1) obtain z where z: "z \<in> set ys" "title_clash x z" by auto
    have lt_False: "\<not> lt"
    proof
      assume lt
      with Inr have t: "tuple_lt (itemgetter x) (itemgetter y) = Inr True" by simp
      have "session_le y z" using Cons.prems(2) z(1) by simp
      moreover have "\<not> title_clash y z" using Cons.prems(3) z(1) by simp
      ultimately have "\<not> title_clash x z" by (rule clash_behind_greater[OF t])
      with z(2) show False by simp
    qed
    have "insert_sorted x ys = Inl TypeError"
      using Cons.IH z Cons.prems(2,3) by auto
    with Inr lt_False show ?thesis by simp
  qed
qed

lemma sort_into_error_iff:
  assumes "sorted_wrt session_le acc"
    and "\<forall>a \<in> set acc. \<forall>b \<in> set acc. \<not> title_clash a b"
  shows "sort_into acc xs = Inl e \<longleftrightarrow>
         e = TypeError \<and> (\<exists>a \<in> set acc \<union> set xs. \<exists>b \<in> set acc \<union> set xs. title_clash a b)"
  using assms
proof (induction xs arbitrary: acc)
  case Nil
  then show ?case by auto
next
  case (Cons x xs)
  show ?case
  proof (cases "insert_sorted x acc")
    case (Inl e')
    from insert_sorted_error[OF Inl] obtain y where
      e': "e' = TypeError" and y: "y \<in> set acc" "title_clash x y"
      by blast
    have l: "sort_into acc (x # xs) = Inl TypeError"
      using Inl e' by simp
    have r: "\<exists>a \<in> set acc \<union> set (x # xs). \<exists>b \<in> set acc \<union> set (x # xs). title_clash a b"
    proof -
      have "x \<in> set acc \<union> set (x # xs)" "y \<in> set acc \<union> set (x # xs)"
        using y(1) by simp_all
      with y(2) show ?thesis by blast
    qed
    show ?thesis unfolding l using r by auto
  next
    case (Inr acc')
    have set': "set acc' = insert x (set acc)" by (rule insert_sorted_set[OF Inr])
    have s: "sorted_wrt session_le acc'"
      by (rule insert_sorted_sorted[OF Inr Cons.prems(1)])
    have no_x: "\<forall>y \<in> set acc. \<not> title_clash x y"
    proof (rule ccontr)
      assume "\<not> (\<forall>y \<in> set acc. \<not> title_clash x y)"
      then have "\<exists>y \<in> set acc. title_clash x y" by blast
      then have "insert_sorted x acc = Inl TypeError"
        by (rule insert_sorted_clash[OF _ Cons.prems(1) Cons.prems(2)])
      with Inr show False by simp
    qed
    have xx: "\<not> title_clash x x" by (simp add: title_clash_def)
    have c: "\<forall>a \<in> set acc'. \<forall>b \<in> set acc'. \<not> title_clash a b"
    proof (intro ballI)
      fix a b
      assume "a \<in> set acc'" "b \<in> set acc'"
      then have "a = x \<or> a \<in> set acc" "b = x \<or> b \<in> set acc"
        unfolding set' by simp_all
      then show "\<not> title_clash a b"
        using no_x xx Cons.prems(2) title_clash_sym by blast
    qed
    have l: "sort_into acc (x # xs) = sort_into acc' xs" using Inr by simp
    have u: "set acc \<union> set (x # xs) = set acc' \<union> set xs" unfolding set' by simp
    show ?thesis unfolding l u by (rule Cons.IH[OF s c])
  qed
qed

lemma py_sorted_error_iff:
  "py_sorted xs = Inl e \<longleftrightarrow>
     e = TypeError \<and> (\<exists>a \<in> set xs. \<exists>b \<in> set xs. title_clash a b)"
  using sort_into_error_iff[of "[]" xs e] by (simp add: py_sorted_def)

subsection \<open>Floating point\<close>

lemma pow2_powi: "pow2 k = 2 powi k"
  by (simp add: pow2_def power_int_def inverse_eq_divide power_one_over)

lemma pow2_pos: "0 < pow2 k"
  by (simp add: pow2_def)

lemma bitlen_upper: "n < 2 ^ bitlen n"
proof (induction n rule: bitlen.induct)
  case (1 n)
  show ?case
  proof (cases "n = 0")
    case True
    then show ?thesis by (simp add: bitlen.simps)
  next
    case False
    then have "n div 2 < 2 ^ bitlen (n div 2)" using 1 by simp
    then have "n < 2 * 2 ^ bitlen (n div 2)" by linarith
    with False show ?thesis by (subst bitlen.simps) simp
  qed
qed

lemma bitlen_lower: "0 < n \<Longrightarrow> 2 ^ (bitlen n - 1) \<le> n"
proof (induction n rule: bitlen.induct)
  case (1 n)
  show ?case
  proof (cases "n div 2 = 0")
    case True
    with 1(2) have "n = 1" by (simp add: div_eq_0_iff)
    then show ?thesis by (simp add: bitlen.simps)
  next
    case False
    then have ih: "2 ^ (bitlen (n div 2) - 1) \<le> n div 2" using 1 by simp
    have pos: "0 < bitlen (n div 2)" using False by (subst bitlen.simps) simp
    have "bitlen n = Suc (bitlen (n div 2))" using 1(2) by (subst bitlen.simps) simp
    then have "(2::nat) ^ (bitlen n - 1) = 2 * 2 ^ (bitlen (n div 2) - 1)"
      using pos by (cases "bitlen (n div 2)") simp_all
    also have "\<dots> \<le> 2 * (n div 2)" using ih by simp
    also have "\<dots> \<le> n" by simp
    finally show ?thesis .
  qed
qed

lemma bitlen_pos: "0 < n \<Longrightarrow> 0 < bitlen n"
  by (subst bitlen.simps) simp

lemma ilog2_bounds:
  assumes "0 < a" "0 < d"
  shows "2 powi (ilog2 a d) \<le> (of_int a / of_int d :: rat)"
    and "(of_int a / of_int d :: rat) < 2 powi (ilog2 a d + 1)"
proof -
  let ?x = "of_int a / of_int d :: rat"
  have dpos: "(0::rat) < of_int d" and apos: "(0::rat) < of_int a" using assms by simp_all
  have "2 powi (ilog2 a d) \<le> ?x \<and> ?x < 2 powi (ilog2 a d + 1)"
  proof (cases "d \<le> a")
    case True
    define q where "q = nat (a div d)"
    have qpos: "0 < q" using True assms by (simp add: q_def pos_imp_zdiv_pos_iff)
    have e: "ilog2 a d = int (bitlen q) - 1" using True by (simp add: ilog2_def q_def)
    have q_floor: "int q = \<lfloor>?x\<rfloor>"
      using assms by (simp add: q_def floor_divide_of_int_eq pos_imp_zdiv_nonneg_iff)
    have "(of_int \<lfloor>?x\<rfloor> :: rat) \<le> ?x" "?x < of_int \<lfloor>?x\<rfloor> + 1"
      by linarith+
    then have "(of_int (int q) :: rat) \<le> ?x" "?x < of_int (int q) + 1"
      unfolding q_floor by simp_all
    then have lo: "(of_nat q :: rat) \<le> ?x" and hi: "?x < of_nat q + 1"
      by simp_all
    have "(2::rat) powi (int (bitlen q) - 1) = 2 ^ (bitlen q - 1)"
      using bitlen_pos[OF qpos] by (simp add: power_int_def of_nat_diff)
    also have "\<dots> = of_nat (2 ^ (bitlen q - 1))" by simp
    also have "\<dots> \<le> of_nat q" using bitlen_lower[OF qpos] of_nat_le_iff by blast
    finally have A: "2 powi (ilog2 a d) \<le> ?x" using lo e by simp
    have "q + 1 \<le> 2 ^ bitlen q" using bitlen_upper[of q] by simp
    then have "(of_nat (q + 1) :: rat) \<le> of_nat (2 ^ bitlen q)" using of_nat_le_iff by blast
    then have "(of_nat q + 1 :: rat) \<le> 2 ^ bitlen q" by simp
    with hi have "?x < 2 ^ bitlen q" by simp
    then have "?x < 2 powi (ilog2 a d + 1)" using e by simp
    with A show ?thesis by simp
  next
    case False
    then have ad: "a < d" by simp
    define c where "c = (d + a - 1) div a"
    define k where "k = bitlen (nat (c - 1))"
    have e: "ilog2 a d = - int k" using False by (simp add: ilog2_def c_def k_def)
    have "a * c + (d + a - 1) mod a = d + a - 1"
      unfolding c_def by simp
    moreover have "0 \<le> (d + a - 1) mod a" "(d + a - 1) mod a < a"
      using assms(1) by simp_all
    ultimately have "a * c \<le> d + a - 1" "d + a - 1 < a * c + a"
      by linarith+
    then have c1: "a * (c - 1) < d" and c2: "d \<le> a * c"
      by (simp_all add: algebra_simps)
    have "a * 1 < a * c" using ad c2 by linarith
    then have cgt: "1 < c" using assms(1) by (simp add: mult_less_cancel_left_pos)
    then have npos: "0 < nat (c - 1)" by simp
    have lo: "2 ^ (k - 1) \<le> c - 1"
    proof -
      have "int (2 ^ (k - 1)) \<le> int (nat (c - 1))"
        unfolding k_def using bitlen_lower[OF npos] of_nat_le_iff by blast
      then show ?thesis using cgt by simp
    qed
    have hi: "c \<le> 2 ^ k"
    proof -
      have "int (nat (c - 1)) < int (2 ^ k)"
        unfolding k_def using bitlen_upper[of "nat (c - 1)"] of_nat_less_iff by blast
      then show ?thesis using cgt by simp
    qed
    have kpos: "0 < k" unfolding k_def by (rule bitlen_pos[OF npos])
    have "d \<le> a * 2 ^ k"
    proof -
      have "a * c \<le> a * 2 ^ k" using hi assms(1) by (simp add: mult_left_mono)
      with c2 show ?thesis by linarith
    qed
    then have "(of_int d :: rat) \<le> of_int (a * 2 ^ k)" using of_int_le_iff by blast
    then have "(of_int d :: rat) \<le> of_int a * 2 ^ k" by simp
    then have "1 / 2 ^ k \<le> ?x" using dpos by (simp add: field_simps)
    then have A: "2 powi (ilog2 a d) \<le> ?x"
      using e by (simp add: power_int_minus_divide)
    have "a * 2 ^ (k - 1) < d"
    proof -
      have "a * 2 ^ (k - 1) \<le> a * (c - 1)" using lo assms(1) by (simp add: mult_left_mono)
      with c1 show ?thesis by linarith
    qed
    then have "(of_int (a * 2 ^ (k - 1)) :: rat) < of_int d" using of_int_less_iff by blast
    then have "(of_int a * 2 ^ (k - 1) :: rat) < of_int d" by simp
    then have "?x < 1 / 2 ^ (k - 1)" using dpos by (simp add: field_simps)
    moreover have "(2::rat) powi (- int k + 1) = 1 / 2 ^ (k - 1)"
    proof -
      have "- int k + 1 = - int (k - 1)" using kpos by simp
      then show ?thesis by (simp only: power_int_minus_divide power_int_of_nat)
    qed
    ultimately have "?x < 2 powi (ilog2 a d + 1)" using e by simp
    with A show ?thesis by simp
  qed
  then show "2 powi (ilog2 a d) \<le> ?x" and "?x < 2 powi (ilog2 a d + 1)"
    by simp_all
qed

lemma powi2_unique:
  fixes x :: rat
  assumes "2 powi e \<le> x" "x < 2 powi (e + 1)" "2 powi e' \<le> x" "x < 2 powi (e' + 1)"
  shows "e = e'"
proof (rule ccontr)
  assume "e \<noteq> e'"
  then consider "e + 1 \<le> e'" | "e' + 1 \<le> e" by linarith
  then show False
  proof cases
    case 1
    then have "(2::rat) powi (e + 1) \<le> 2 powi e'" by (simp add: power_int_increasing)
    with assms show False by linarith
  next
    case 2
    then have "(2::rat) powi (e' + 1) \<le> 2 powi e" by (simp add: power_int_increasing)
    with assms show False by linarith
  qed
qed

lemma ilog2_eq:
  assumes "0 < a" "0 < d"
    and "2 powi e \<le> (of_int a / of_int d :: rat)" "(of_int a / of_int d :: rat) < 2 powi (e + 1)"
  shows "ilog2 a d = e"
  using powi2_unique[OF ilog2_bounds[OF assms(1,2)] assms(3,4)] .

lemma round_half_even_of_int [simp]: "round_half_even (of_int k) = k"
  by (simp add: round_half_even_def)

lemma round_half_even_bounds:
  "\<lfloor>y\<rfloor> \<le> round_half_even y" "round_half_even y \<le> \<lfloor>y\<rfloor> + 1"
  by (simp_all add: round_half_even_def Let_def)

lemma round_half_even_error: "\<bar>of_int (round_half_even y) - y\<bar> \<le> 1 / 2"
proof -
  have "of_int \<lfloor>y\<rfloor> \<le> y" "y < of_int \<lfloor>y\<rfloor> + 1" by linarith+
  then show ?thesis
    by (auto simp: round_half_even_def Let_def abs_le_iff)
qed

lemma round_half_even_nonneg: "0 \<le> y \<Longrightarrow> 0 \<le> round_half_even y"
proof -
  assume "0 \<le> y"
  then have "0 \<le> \<lfloor>y\<rfloor>" by simp
  with round_half_even_bounds(1)[of y] show ?thesis by linarith
qed

lemma powi2_less_imp:
  assumes "(2::rat) powi e < 2 powi k"
  shows "e < k"
proof (rule ccontr)
  assume "\<not> e < k"
  then have "(2::rat) powi k \<le> 2 powi e" by (simp add: power_int_increasing)
  with assms show False by simp
qed

lemma nearest_double_unfold:
  assumes "n \<noteq> 0"
  shows "nearest_double n d =
     (let u = max (ilog2 \<bar>n\<bar> d - 52) (- 1074);
          r = of_int (round_half_even (of_int \<bar>n\<bar> / (of_int d * 2 powi u))) * 2 powi u
      in if 2 ^ 1024 \<le> r then None else Some (if n < 0 then - r else r))"
  using assms by (simp add: nearest_double_def Let_def pow2_powi)

lemma nearest_double_exact:
  assumes d: "0 < d"
    and x: "(of_int n / of_int d :: rat) = of_int m * 2 powi u"
    and m: "\<bar>m\<bar> < 2 ^ 53" and u: "- 1074 \<le> u"
    and fin: "\<bar>of_int n / of_int d :: rat\<bar> < 2 ^ 1024"
  shows "nearest_double n d = Some (of_int n / of_int d)"
proof (cases "n = 0")
  case True
  then show ?thesis by (simp add: nearest_double_def)
next
  case False
  let ?a = "\<bar>n\<bar>"
  let ?x = "of_int ?a / of_int d :: rat"
  have apos: "0 < ?a" using False by simp
  have ax: "?x = of_int \<bar>m\<bar> * 2 powi u"
  proof -
    have "?x = \<bar>of_int n / of_int d :: rat\<bar>" using d by (simp add: abs_divide)
    also have "\<dots> = \<bar>of_int m * 2 powi u :: rat\<bar>" by (simp only: x)
    also have "\<dots> = of_int \<bar>m\<bar> * 2 powi u" by (simp add: abs_mult power_int_abs)
    finally show ?thesis .
  qed
  define e where "e = ilog2 ?a d"
  define u' where "u' = max (e - 52) (- 1074)"
  have "2 powi e \<le> ?x" unfolding e_def by (rule ilog2_bounds(1)[OF apos d])
  also have "?x < 2 ^ 53 * 2 powi u"
  proof -
    have "(of_int \<bar>m\<bar> :: rat) < of_int (2 ^ 53)" using m of_int_less_iff by blast
    then have "(of_int \<bar>m\<bar> :: rat) < 2 ^ 53" by simp
    then show ?thesis unfolding ax by (simp add: mult_strict_right_mono)
  qed
  also have "\<dots> = 2 powi (53 + u)" by (simp add: power_int_add)
  finally have "e < 53 + u" by (rule powi2_less_imp)
  then have le: "u' \<le> u" using u by (simp add: u'_def)
  define j where "j = nat (u - u')"
  have uj: "u = u' + int j" using le by (simp add: j_def)
  have scaled: "?x / 2 powi u' = of_int (\<bar>m\<bar> * 2 ^ j)"
    unfolding ax uj by (simp add: power_int_add)
  have "of_int ?a / (of_int d * 2 powi u') = ?x / 2 powi u'" by simp
  then have rnd: "round_half_even (of_int ?a / (of_int d * 2 powi u')) = \<bar>m\<bar> * 2 ^ j"
    unfolding scaled by (simp only: round_half_even_of_int)
  have nz: "(2::rat) powi u' \<noteq> 0" by simp
  have r: "of_int (\<bar>m\<bar> * 2 ^ j) * 2 powi u' = ?x"
    using scaled nonzero_divide_eq_eq[OF nz, of ?x "of_int (\<bar>m\<bar> * 2 ^ j)"] by simp
  have xa: "?x = \<bar>of_int n / of_int d :: rat\<bar>" using d by (simp add: abs_divide)
  have nov: "\<not> 2 ^ 1024 \<le> ?x" using fin unfolding xa[symmetric] by (simp only: not_le)
  have sgn: "(if n < 0 then - ?x else ?x) = of_int n / of_int d"
    by (simp add: abs_if)
  show ?thesis
    unfolding nearest_double_unfold[OF False] Let_def
    unfolding e_def[symmetric] u'_def[symmetric] rnd r
    by (simp only: nov if_False sgn)
qed

lemma nearest_double_exact_small:
  assumes d: "0 < d"
    and x: "(of_int n / of_int d :: rat) = of_int m * 2 powi u"
    and m: "\<bar>m\<bar> < 2 ^ 53" and u: "- 1074 \<le> u" "u \<le> 970"
  shows "nearest_double n d = Some (of_int n / of_int d)"
proof -
  have "(of_int \<bar>m\<bar> :: rat) < of_int (2 ^ 53)" using m of_int_less_iff by blast
  then have 1: "(of_int \<bar>m\<bar> :: rat) < 2 ^ 53" by simp
  have 2: "(2::rat) powi u \<le> 2 powi 970" using u(2) by (simp only: power_int_increasing)
  have "\<bar>of_int n / of_int d :: rat\<bar> = of_int \<bar>m\<bar> * 2 powi u"
    unfolding x by (simp add: abs_mult power_int_abs)
  also have "\<dots> < 2 ^ 53 * 2 powi u" using 1 by (simp add: mult_strict_right_mono)
  also have "\<dots> \<le> 2 ^ 53 * 2 powi 970" using 2 by (simp add: mult_left_mono)
  also have "\<dots> = 2 powi (53 + 970)" by (simp add: power_int_add)
  also have "\<dots> \<le> 2 powi 1024" by (rule power_int_increasing) simp_all
  also have "\<dots> = 2 ^ 1024" by simp
  finally show ?thesis by (rule nearest_double_exact[OF d x m u(1)])
qed

lemma nearest_double_nonneg:
  assumes "0 < d" "0 \<le> n" "nearest_double n d = Some x"
  shows "0 \<le> x"
proof (cases "n = 0")
  case True
  with assms(3) show ?thesis by (simp add: nearest_double_def)
next
  case False
  define u where "u = max (ilog2 \<bar>n\<bar> d - 52) (- 1074)"
  define y where "y = (of_int \<bar>n\<bar> / (of_int d * 2 powi u) :: rat)"
  have "0 \<le> y" unfolding y_def using assms(1) by simp
  then have "0 \<le> round_half_even y" by (rule round_half_even_nonneg)
  then have r: "(0::rat) \<le> of_int (round_half_even y) * 2 powi u" by simp
  have "x = of_int (round_half_even y) * 2 powi u"
    using assms(2,3) False unfolding nearest_double_unfold[OF False] Let_def u_def y_def
    by (auto split: if_splits)
  with r show ?thesis by simp
qed

lemma nearest_double_normal:
  assumes d: "0 < d" and n: "n \<noteq> 0"
    and e: "- 1022 \<le> ilog2 \<bar>n\<bar> d"
    and x: "nearest_double n d = Some x"
  shows "2 powi (ilog2 \<bar>n\<bar> d) \<le> \<bar>x\<bar>"
    and "\<bar>x - of_int n / of_int d\<bar> \<le> 2 powi (ilog2 \<bar>n\<bar> d - 53)"
    and "n < 0 \<Longrightarrow> x < 0" and "0 < n \<Longrightarrow> 0 < x"
proof -
  define e where "e = ilog2 \<bar>n\<bar> d"
  define u where "u = e - 52"
  define q where "q = (of_int \<bar>n\<bar> / of_int d :: rat)"
  define y where "y = q / 2 powi u"
  define m where "m = round_half_even y"
  define r where "r = (of_int m * 2 powi u :: rat)"
  have apos: "0 < \<bar>n\<bar>" using n by simp
  have umax: "max (ilog2 \<bar>n\<bar> d - 52) (- 1074) = u" using e by (simp add: u_def e_def)
  have yq: "of_int \<bar>n\<bar> / (of_int d * 2 powi u) = y" by (simp add: y_def q_def)
  have xr: "x = (if n < 0 then - r else r)"
    using x unfolding nearest_double_unfold[OF n] Let_def umax yq m_def[symmetric] r_def[symmetric]
    by (auto split: if_splits)
  have upos: "(0::rat) < 2 powi u" by simp
  have "2 powi e \<le> q" unfolding e_def q_def by (rule ilog2_bounds(1)[OF apos d])
  then have "2 powi e / 2 powi u \<le> y" unfolding y_def using upos by (simp add: divide_right_mono)
  moreover have "(2::rat) powi e / 2 powi u = 2 ^ 52"
    unfolding u_def by (simp add: power_int_diff)
  ultimately have y52: "of_int (2 ^ 52) \<le> y" by simp
  then have "2 ^ 52 \<le> \<lfloor>y\<rfloor>" by (simp only: le_floor_iff)
  with round_half_even_bounds(1)[of y] have m52: "2 ^ 52 \<le> m" unfolding m_def by linarith
  then have "(of_int (2 ^ 52) :: rat) \<le> of_int m" using of_int_le_iff by blast
  then have "(2 ^ 52 :: rat) * 2 powi u \<le> r" unfolding r_def using upos by simp
  moreover have "(2 ^ 52 :: rat) * 2 powi u = 2 powi e"
    unfolding u_def by (simp add: power_int_diff)
  ultimately have re: "2 powi e \<le> r" by simp
  have rpos: "0 < r"
  proof -
    have "(0::rat) < 2 powi e" by simp
    with re show ?thesis by linarith
  qed
  have "\<bar>x\<bar> = r" using xr rpos by simp
  then show "2 powi (ilog2 \<bar>n\<bar> d) \<le> \<bar>x\<bar>"
    using re unfolding e_def by (simp only:)
  show "n < 0 \<Longrightarrow> x < 0" using xr rpos by simp
  show "0 < n \<Longrightarrow> 0 < x" using xr rpos by simp
  have "\<bar>of_int m - y\<bar> \<le> 1 / 2" unfolding m_def by (rule round_half_even_error)
  then have "\<bar>of_int m - y\<bar> * 2 powi u \<le> 1 / 2 * 2 powi u"
    using upos by (simp only: mult_right_mono less_imp_le)
  moreover have "\<bar>of_int m - y\<bar> * 2 powi u = \<bar>r - q\<bar>"
  proof -
    have "\<bar>of_int m - y\<bar> * 2 powi u = \<bar>(of_int m - y) * 2 powi u\<bar>"
      using upos by (simp add: abs_mult)
    also have "(of_int m - y) * 2 powi u = r - q"
      unfolding r_def y_def by (simp add: left_diff_distrib)
    finally show ?thesis .
  qed
  moreover have "1 / 2 * (2::rat) powi u = 2 powi (e - 53)"
  proof -
    have "e - 53 = u - 1" by (simp add: u_def)
    then show ?thesis by (simp add: power_int_diff)
  qed
  ultimately have err: "\<bar>r - q\<bar> \<le> 2 powi (e - 53)" by simp
  have "x - of_int n / of_int d = (if n < 0 then - (r - q) else r - q)"
    unfolding xr q_def by (simp add: abs_if)
  then have "\<bar>x - of_int n / of_int d\<bar> = \<bar>r - q\<bar>"
    by (simp add: abs_minus_commute)
  with err show "\<bar>x - of_int n / of_int d\<bar> \<le> 2 powi (ilog2 \<bar>n\<bar> d - 53)"
    unfolding e_def by (simp only:)
qed

lemma nearest_double_returns:
  assumes d: "0 < d" and e: "- 1022 \<le> ilog2 \<bar>n\<bar> d" "ilog2 \<bar>n\<bar> d \<le> 1022"
  shows "\<exists>x. nearest_double n d = Some x"
proof (cases "n = 0")
  case True
  then show ?thesis by (simp add: nearest_double_def)
next
  case n: False
  define e where "e = ilog2 \<bar>n\<bar> d"
  define u where "u = e - 52"
  define q where "q = (of_int \<bar>n\<bar> / of_int d :: rat)"
  define y where "y = q / 2 powi u"
  define m where "m = round_half_even y"
  define r where "r = (of_int m * 2 powi u :: rat)"
  have apos: "0 < \<bar>n\<bar>" using n by simp
  have umax: "max (ilog2 \<bar>n\<bar> d - 52) (- 1074) = u" using assms(2) by (simp add: u_def e_def)
  have yq: "of_int \<bar>n\<bar> / (of_int d * 2 powi u) = y" by (simp add: y_def q_def)
  have upos: "(0::rat) < 2 powi u" by simp
  have "q < 2 powi (e + 1)" unfolding e_def q_def by (rule ilog2_bounds(2)[OF apos d])
  then have "y < 2 powi (e + 1) / 2 powi u" unfolding y_def using upos by (simp add: divide_strict_right_mono)
  moreover have "(2::rat) powi (e + 1) / 2 powi u = 2 ^ 53"
  proof -
    have "(2::rat) powi (e + 1) / 2 powi u = 2 powi (e + 1 - u)" by (simp add: power_int_diff)
    also have "e + 1 - u = 53" by (simp add: u_def)
    finally show ?thesis by simp
  qed
  ultimately have "y < of_int (2 ^ 53)" by simp
  then have "\<lfloor>y\<rfloor> < 2 ^ 53" by (simp only: floor_less_iff)
  with round_half_even_bounds(2)[of y] have "m \<le> 2 ^ 53" unfolding m_def by linarith
  then have "(of_int m :: rat) \<le> of_int (2 ^ 53)" using of_int_le_iff by blast
  then have "r \<le> 2 ^ 53 * 2 powi u" unfolding r_def using upos by simp
  also have "(2 ^ 53 :: rat) * 2 powi u = 2 powi (e + 1)"
  proof -
    have "(2 ^ 53 :: rat) * 2 powi u = 2 powi (53 + u)" by (simp add: power_int_add)
    also have "53 + u = e + 1" by (simp add: u_def)
    finally show ?thesis .
  qed
  also have "\<dots> \<le> 2 powi 1023"
    using assms(3) by (intro power_int_increasing) (simp_all add: e_def)
  also have "\<dots> < 2 powi 1024" by (rule power_int_strict_increasing) simp_all
  also have "\<dots> = 2 ^ 1024" by simp
  finally have "\<not> 2 ^ 1024 \<le> r" by (simp only: not_le)
  then show ?thesis
    unfolding nearest_double_unfold[OF n] Let_def umax yq m_def[symmetric] r_def[symmetric]
    by simp
qed

lemma ilog2_ge:
  assumes "0 < a" "0 < d" "2 powi k \<le> (of_int a / of_int d :: rat)"
  shows "k \<le> ilog2 a d"
proof -
  have "(2::rat) powi k < 2 powi (ilog2 a d + 1)"
    using assms(3) ilog2_bounds(2)[OF assms(1,2)] by linarith
  then have "k < ilog2 a d + 1" by (rule powi2_less_imp)
  then show ?thesis by simp
qed

lemma ilog2_less:
  assumes "0 < a" "0 < d" "(of_int a / of_int d :: rat) < 2 powi k"
  shows "ilog2 a d < k"
proof -
  have "(2::rat) powi (ilog2 a d) < 2 powi k"
    using assms(3) ilog2_bounds(1)[OF assms(1,2)] by linarith
  then show ?thesis by (rule powi2_less_imp)
qed

lemma int_truediv_Inr: "int_truediv n d = Inr q \<longleftrightarrow> nearest_double n d = Some q"
  by (simp add: int_truediv_def split: option.splits)

lemma ilog2_small_divisor:
  assumes "n \<noteq> 0" "0 < d" "d \<le> 1024"
  shows "- 10 \<le> ilog2 \<bar>n\<bar> d"
proof (rule ilog2_ge)
  show "0 < \<bar>n\<bar>" using assms(1) by simp
  show "0 < d" by fact
  have "(1::rat) \<le> of_int \<bar>n\<bar>" using assms(1) by (simp add: of_int_abs[symmetric] del: of_int_abs)
  moreover have "(0::rat) < of_int d" "(of_int d :: rat) \<le> 1024"
    using assms(2,3) by simp_all
  ultimately have "(1 / 1024 :: rat) \<le> of_int \<bar>n\<bar> / of_int d"
    by (simp add: field_simps)
  then show "2 powi (- 10) \<le> (of_int \<bar>n\<bar> / of_int d :: rat)"
    by (simp add: power_int_minus_divide)
qed

lemma int_truediv_error:
  assumes "int_truediv n 60 = Inr q"
  shows "\<bar>q - of_int n / 60\<bar> \<le> \<bar>of_int n / 60\<bar> / 2 ^ 53"
proof (cases "n = 0")
  case True
  with assms show ?thesis by (simp add: int_truediv_Inr nearest_double_def)
next
  case False
  define e where "e = ilog2 \<bar>n\<bar> 60"
  have x: "nearest_double n 60 = Some q" using assms by (simp add: int_truediv_Inr)
  have e10: "- 10 \<le> e" unfolding e_def by (rule ilog2_small_divisor[OF False]) simp_all
  then have e: "- 1022 \<le> ilog2 \<bar>n\<bar> 60" by (simp add: e_def)
  have "\<bar>q - of_int n / of_int 60\<bar> \<le> 2 powi (e - 53)"
    unfolding e_def by (rule nearest_double_normal(2)[OF _ False e x]) simp
  also have "(2::rat) powi (e - 53) = 2 powi e / 2 ^ 53" by (simp add: power_int_diff)
  also have "\<dots> \<le> (of_int \<bar>n\<bar> / of_int 60) / 2 ^ 53"
  proof -
    have "2 powi e \<le> (of_int \<bar>n\<bar> / of_int 60 :: rat)"
      unfolding e_def using False by (intro ilog2_bounds(1)) simp_all
    then show ?thesis by (simp only: divide_right_mono zero_le_power zero_le_numeral)
  qed
  finally show ?thesis by (simp add: abs_divide)
qed

lemma int_truediv_returns:
  assumes "\<bar>n\<bar> < 2 ^ 1000"
  shows "\<exists>q. int_truediv n 60 = Inr q"
proof (cases "n = 0")
  case True
  then show ?thesis by (simp add: int_truediv_def nearest_double_def)
next
  case False
  have lo: "- 1022 \<le> ilog2 \<bar>n\<bar> 60"
    using ilog2_small_divisor[OF False, of 60] by simp
  have "(of_int \<bar>n\<bar> :: rat) < of_int (2 ^ 1000)" using assms of_int_less_iff by blast
  then have "(of_int \<bar>n\<bar> :: rat) < 2 powi 1000" by simp
  then have "(of_int \<bar>n\<bar> / of_int 60 :: rat) < 2 powi 1000"
    by (simp add: field_simps)
  then have "ilog2 \<bar>n\<bar> 60 < 1000" using False by (intro ilog2_less) simp_all
  then have hi: "ilog2 \<bar>n\<bar> 60 \<le> 1022" by simp
  from nearest_double_returns[OF _ lo hi] show ?thesis
    by (auto simp: int_truediv_Inr)
qed

subsection \<open>\<^verbatim>\<open>calculate_length\<close>\<close>

lemma split_colon_digits:
  assumes "is_digits hs" "is_digits ms"
  shows "map_raising py_int (str_split [CHR '':''] (hs @ CHR '':'' # ms))
         = Inr [int (decimal hs), int (decimal ms)]"
proof -
  have h: "CHR '':'' \<notin> set hs" and m: "CHR '':'' \<notin> set ms"
    using assms by (simp_all add: digits_no_sep)
  have "str_split [CHR '':''] (hs @ CHR '':'' # ms) = [hs, ms]"
    using split_char_append[OF h, of ms] split_char_notin[OF m] by simp
  then show ?thesis by (simp add: py_int_digits assms)
qed

lemma calculate_length_digits:
  assumes "is_digits sh" "is_digits sm" "is_digits eh" "is_digits em"
  shows "calculate_length (sh @ CHR '':'' # sm) (eh @ CHR '':'' # em)
         = int_truediv ((int (decimal eh) * 60 + int (decimal em))
                        - (int (decimal sh) * 60 + int (decimal sm))) 60"
  by (simp add: calculate_length_def split_colon_digits assms)

lemma parse_session_InrE:
  assumes "parse_session el d = Inr r"
  obtains s_time ts te href rest len where
    "get_text el Event_meta_p = Some s_time"
    "unpack_map2 convert_time (str_split '' - '' s_time) = Inr (ts, te)"
    "title_links el = Some href # rest"
    "calculate_length ts te = Inr len"
    "py_round len 3 = Inr (length_in_hours r)"
    "r = \<lparr> title = get_text el Event_title,
           type = get_text el Event_type,
           description = get_text el Event_content_p,
           speakers = map_option sub_speakers (get_text el Event_speakers),
           date = d,
           time_start = ts,
           time_end = te,
           length_in_hours = length_in_hours r,
           room = get_text el Event_meta_h4,
           event_id = str_join ''/'' (py_slice (str_split ''/'' href) (- 3) (- 1)),
           event_url = ''https://ire.org'' @ href \<rparr>"
proof -
  from assms obtain s_time where t: "get_text el Event_meta_p = Some s_time"
    by (cases "get_text el Event_meta_p") (simp_all add: parse_session_def)
  from assms t obtain ts te where
    u: "unpack_map2 convert_time (str_split '' - '' s_time) = Inr (ts, te)"
    by (cases "unpack_map2 convert_time (str_split '' - '' s_time)")
       (auto simp: parse_session_def)
  from assms t u obtain href rest where l: "title_links el = Some href # rest"
    by (cases "title_links el"; cases "hd (title_links el)")
       (auto simp: parse_session_def)
  from assms t u l obtain len where c: "calculate_length ts te = Inr len"
    by (cases "calculate_length ts te") (auto simp: parse_session_def)
  from assms t u l c obtain rounded where p: "py_round len 3 = Inr rounded"
    by (cases "py_round len 3") (auto simp: parse_session_def)
  from assms t u l c p have r:
    "r = \<lparr> title = get_text el Event_title,
           type = get_text el Event_type,
           description = get_text el Event_content_p,
           speakers = map_option sub_speakers (get_text el Event_speakers),
           date = d,
           time_start = ts,
           time_end = te,
           length_in_hours = rounded,
           room = get_text el Event_meta_h4,
           event_id = str_join ''/'' (py_slice (str_split ''/'' href) (- 3) (- 1)),
           event_url = ''https://ire.org'' @ href \<rparr>"
    by (auto simp: parse_session_def map_option_case)
  then have lr: "length_in_hours r = rounded" by simp
  have p': "py_round len 3 = Inr (length_in_hours r)" using p lr by simp
  show thesis by (rule that[OF t u l c p' r[folded lr]])
qed

lemma py_round_Inr:
  "py_round q nd = Inr y \<longleftrightarrow> nearest_double (round_half_even (q * 10 ^ nd)) (10 ^ nd) = Some y"
  by (simp add: py_round_def split: option.splits)

text \<open>
  C3. For two times given as decimal hours and minutes around a colon,
  \<^verbatim>\<open>calculate_length\<close> is the true division by 60 of the end's total minutes minus
  the start's total minutes. That division returns the float nearest to the exact
  quotient (within a relative error of \<open>2\<^sup>-\<^sup>5\<^sup>3\<close>) and returns for every difference
  below \<open>2\<^sup>1\<^sup>0\<^sup>0\<^sup>0\<close>. The value stored in a record is \<^verbatim>\<open>round(q, 3)\<close> for the quotient
  \<^verbatim>\<open>q\<close> of the record's own start and end: the float of \<open>k / 1000\<close> for the integer
  \<open>k\<close> nearest to \<open>1000 q\<close>. In particular
  \<^verbatim>\<open>calculate_length("09:00", "10:30") == 1.5\<close>.
\<close>

theorem calculate_length_quotient:
  "(\<forall>sh sm eh em. is_digits sh \<and> is_digits sm \<and> is_digits eh \<and> is_digits em \<longrightarrow>
      calculate_length (sh @ '':'' @ sm) (eh @ '':'' @ em)
      = int_truediv ((int (decimal eh) * 60 + int (decimal em))
                     - (int (decimal sh) * 60 + int (decimal sm))) 60)
   \<and> (\<forall>n q. int_truediv n 60 = Inr q \<longrightarrow> \<bar>q - of_int n / 60\<bar> \<le> \<bar>of_int n / 60\<bar> / 2 ^ 53)
   \<and> (\<forall>n. \<bar>n\<bar> < 2 ^ 1000 \<longrightarrow> (\<exists>q. int_truediv n 60 = Inr q))
   \<and> (\<forall>el d r. parse_session el d = Inr r \<longrightarrow>
         (\<exists>q. calculate_length (time_start r) (time_end r) = Inr q
              \<and> py_round q 3 = Inr (length_in_hours r)))
   \<and> (\<forall>q y. py_round q 3 = Inr y \<longrightarrow>
         (\<exists>k. \<bar>of_int k - q * 1000\<bar> \<le> 1 / 2 \<and> nearest_double k 1000 = Some y))
   \<and> calculate_length ''09:00'' ''10:30'' = Inr (3 / 2)"
proof (intro conjI allI impI)
  fix sh sm eh em
  assume "is_digits sh \<and> is_digits sm \<and> is_digits eh \<and> is_digits em"
  then show "calculate_length (sh @ '':'' @ sm) (eh @ '':'' @ em)
      = int_truediv ((int (decimal eh) * 60 + int (decimal em))
                     - (int (decimal sh) * 60 + int (decimal sm))) 60"
    using calculate_length_digits[of sh sm eh em] by simp
next
  fix n q
  assume "int_truediv n 60 = Inr q"
  then show "\<bar>q - of_int n / 60\<bar> \<le> \<bar>of_int n / 60\<bar> / 2 ^ 53"
    by (rule int_truediv_error)
next
  fix n :: int
  assume "\<bar>n\<bar> < 2 ^ 1000"
  then show "\<exists>q. int_truediv n 60 = Inr q" by (rule int_truediv_returns)
next
  fix el d r
  assume "parse_session el d = Inr r"
  then show "\<exists>q. calculate_length (time_start r) (time_end r) = Inr q
              \<and> py_round q 3 = Inr (length_in_hours r)"
    by (elim parse_session_InrE) (metis session.select_convs(6,7))
next
  fix q y
  assume "py_round q 3 = Inr y"
  then have "nearest_double (round_half_even (q * 1000)) 1000 = Some y"
    by (simp add: py_round_Inr)
  moreover have "\<bar>of_int (round_half_even (q * 1000)) - q * 1000\<bar> \<le> 1 / 2"
    by (rule round_half_even_error)
  ultimately show "\<exists>k. \<bar>of_int k - q * 1000\<bar> \<le> 1 / 2 \<and> nearest_double k 1000 = Some y"
    by blast
next
  have d: "is_digits ''09''" "is_digits ''00''" "is_digits ''10''" "is_digits ''30''"
    by (simp_all add: is_digits_def digit_val_def)
  have v: "decimal ''09'' = 9" "decimal ''00'' = 0" "decimal ''10'' = 10" "decimal ''30'' = 30"
    by (simp_all add: decimal_def digit_val_def)
  have "nearest_double 90 60 = Some (of_int 90 / of_int 60)"
    by (rule nearest_double_exact_small[where m = 3 and u = "- 1"]) simp_all
  then have "int_truediv 90 60 = Inr (3 / 2)" by (simp add: int_truediv_def)
  then show "calculate_length ''09:00'' ''10:30'' = Inr (3 / 2)"
    using calculate_length_digits[OF d(1,2,3,4)] v by simp
qed

subsection \<open>Evaluation on concrete sessions\<close>

lemma parse_session_eval:
  assumes "get_text el Event_meta_p = Some s_time"
    and "str_split '' - '' s_time = [a, b]"
    and "convert_time a = Inr ts" and "convert_time b = Inr te"
    and "title_links el = Some href # rest"
    and "calculate_length ts te = Inr len"
    and "py_round len 3 = Inr rounded"
  shows "parse_session el d =
     Inr \<lparr> title = get_text el Event_title,
           type = get_text el Event_type,
           description = get_text el Event_content_p,
           speakers = map_option sub_speakers (get_text el Event_speakers),
           date = d,
           time_start = ts,
           time_end = te,
           length_in_hours = rounded,
           room = get_text el Event_meta_h4,
           event_id = str_join ''/'' (py_slice (str_split ''/'' href) (- 3) (- 1)),
           event_url = ''https://ire.org'' @ href \<rparr>"
  using assms
  by (simp add: parse_session_def Let_def map_option_case)

lemma get_text_mk_element:
  "get_text (mk_element ttl tms spk lnk) Event_title = join_stripped ttl"
  "get_text (mk_element ttl tms spk lnk) Event_meta_p = join_stripped tms"
  "get_text (mk_element ttl tms spk lnk) Event_speakers = join_stripped spk"
  "get_text (mk_element ttl tms spk lnk) Event_type = None"
  "get_text (mk_element ttl tms spk lnk) Event_content_p = None"
  "get_text (mk_element ttl tms spk lnk) Event_meta_h4 = None"
  "title_links (mk_element ttl tms spk lnk) = lnk"
  by (simp_all add: get_text_def mk_element_def join_stripped_def)

lemma strip_trimmed:
  assumes "s \<noteq> []" "\<not> isspace (hd s)" "\<not> isspace (last s)"
  shows "strip s = s"
proof -
  have 1: "dropWhile isspace s = s" using assms(1,2) by (cases s) auto
  have "dropWhile isspace (rev s) = rev s"
    using assms(1,3) by (cases "rev s") (auto simp: last_rev[symmetric] simp del: last_rev)
  with 1 show ?thesis by (simp add: strip_def)
qed

lemma join_stripped_single:
  assumes "s \<noteq> []" "\<not> isspace (hd s)" "\<not> isspace (last s)"
  shows "join_stripped [s] = Some s"
  using assms(1) by (simp add: join_stripped_def strip_trimmed[OF assms])

lemma join_stripped_Nil: "join_stripped [] = None"
  by (simp add: join_stripped_def)

lemma convert_time_values:
  "convert_time ''8 am'' = Inr ''08:00''"
  "convert_time ''9 am'' = Inr ''09:00''"
  "convert_time ''10 am'' = Inr ''10:00''"
  "convert_time ''9:30 am'' = Inr ''09:30''"
  by code_simp+

lemma split_dash_values:
  "str_split '' - '' ''9 am - 10 am'' = [''9 am'', ''10 am'']"
  "str_split '' - '' ''8 am - 9:30 am'' = [''8 am'', ''9:30 am'']"
  "str_split '' - '' ''8 am - 9 am'' = [''8 am'', ''9 am'']"
  "str_split '' - '' ''10 am - 9 am'' = [''10 am'', ''9 am'']"
  by code_simp+

lemma int_truediv_values:
  "int_truediv 60 60 = Inr 1"
  "int_truediv 90 60 = Inr (3 / 2)"
  "int_truediv (- 60) 60 = Inr (- 1)"
proof -
  have "nearest_double 60 60 = Some (of_int 60 / of_int 60)"
    by (rule nearest_double_exact_small[where m = 1 and u = 0]) simp_all
  then show "int_truediv 60 60 = Inr 1" by (simp add: int_truediv_def)
  have "nearest_double 90 60 = Some (of_int 90 / of_int 60)"
    by (rule nearest_double_exact_small[where m = 3 and u = "- 1"]) simp_all
  then show "int_truediv 90 60 = Inr (3 / 2)" by (simp add: int_truediv_def)
  have "nearest_double (- 60) 60 = Some (of_int (- 60) / of_int 60)"
    by (rule nearest_double_exact_small[where m = "- 1" and u = 0]) simp_all
  then show "int_truediv (- 60) 60 = Inr (- 1)" by (simp add: int_truediv_def)
qed

lemma digits_values:
  "is_digits ''00''" "is_digits ''08''" "is_digits ''09''" "is_digits ''10''" "is_digits ''30''"
  "decimal ''00'' = 0" "decimal ''08'' = 8" "decimal ''09'' = 9" "decimal ''10'' = 10"
  "decimal ''30'' = 30"
  by (simp_all add: is_digits_def decimal_def digit_val_def)

lemma calculate_length_values:
  "calculate_length ''09:00'' ''10:00'' = Inr 1"
  "calculate_length ''08:00'' ''09:00'' = Inr 1"
  "calculate_length ''08:00'' ''09:30'' = Inr (3 / 2)"
  "calculate_length ''10:00'' ''09:00'' = Inr (- 1)"
  using calculate_length_digits[of "''09''" "''00''" "''10''" "''00''"]
        calculate_length_digits[of "''08''" "''00''" "''09''" "''00''"]
        calculate_length_digits[of "''08''" "''00''" "''09''" "''30''"]
        calculate_length_digits[of "''10''" "''00''" "''09''" "''00''"]
  by (simp_all add: digits_values int_truediv_values)

lemma py_round_values:
  "py_round 1 3 = Inr 1"
  "py_round (3 / 2) 3 = Inr (3 / 2)"
  "py_round (- 1) 3 = Inr (- 1)"
proof -
  have r: "round_half_even 1000 = 1000" "round_half_even 1500 = 1500"
    "round_half_even (- 1000) = - 1000"
    using round_half_even_of_int[of 1000] round_half_even_of_int[of 1500]
      round_half_even_of_int[of "- 1000"] by simp_all
  have "nearest_double 1000 1000 = Some (of_int 1000 / of_int 1000)"
    by (rule nearest_double_exact_small[where m = 1 and u = 0]) simp_all
  then show "py_round 1 3 = Inr 1" by (simp add: py_round_def r)
  have "nearest_double 1500 1000 = Some (of_int 1500 / of_int 1000)"
    by (rule nearest_double_exact_small[where m = 3 and u = "- 1"]) simp_all
  then show "py_round (3 / 2) 3 = Inr (3 / 2)" by (simp add: py_round_def r)
  have "nearest_double (- 1000) 1000 = Some (of_int (- 1000) / of_int 1000)"
    by (rule nearest_double_exact_small[where m = "- 1" and u = 0]) simp_all
  then show "py_round (- 1) 3 = Inr (- 1)" by (simp add: py_round_def r)
qed

lemma slice_values:
  "str_join ''/'' (py_slice (str_split ''/'' ''/events/nicar/s/1/'') (- 3) (- 1)) = ''s/1''"
  "str_join ''/'' (py_slice (str_split ''/'' ''/events/nicar/s/2/'') (- 3) (- 1)) = ''s/2''"
  "str_join ''/'' (py_slice (str_split ''/'' ''/events/nicar/s/3/'') (- 3) (- 1)) = ''s/3''"
  "str_join ''/'' (py_slice (str_split ''/'' ''/events/nicar/s/4/'') (- 3) (- 1)) = ''s/4''"
  by code_simp+

lemma not_isspace_values:
  "\<not> isspace CHR ''9''" "\<not> isspace CHR ''8''" "\<not> isspace CHR ''1''" "\<not> isspace CHR ''m''"
  "\<not> isspace CHR ''B''" "\<not> isspace CHR ''A''" "\<not> isspace CHR ''C''" "\<not> isspace CHR ''D''"
  "\<not> isspace CHR ''S''" "\<not> isspace CHR ''s''" "\<not> isspace CHR ''b''"
  by (simp_all add: isspace_def)

lemma parse_two_days:
  "parse_session el_bots d
     = Inr (mk_session (Some ''Bots'') d ''09:00'' ''10:00'' 1 ''s/2'' ''/events/nicar/s/2/'')"
  "parse_session el_ants d
     = Inr (mk_session (Some ''Ants'') d ''09:00'' ''10:00'' 1 ''s/1'' ''/events/nicar/s/1/'')"
  "parse_session el_cats d
     = Inr (mk_session (Some ''Cats'') d ''08:00'' ''09:30'' (3 / 2) ''s/3'' ''/events/nicar/s/3/'')"
  "parse_session el_dogs d
     = Inr (mk_session (Some ''Dogs'') d ''08:00'' ''09:00'' 1 ''s/4'' ''/events/nicar/s/4/'')"
proof -
  note gt = get_text_mk_element join_stripped_single join_stripped_Nil not_isspace_values
  have t: "get_text el_bots Event_meta_p = Some ''9 am - 10 am''"
    "get_text el_ants Event_meta_p = Some ''9 am - 10 am''"
    "get_text el_cats Event_meta_p = Some ''8 am - 9:30 am''"
    "get_text el_dogs Event_meta_p = Some ''8 am - 9 am''"
    by (simp_all add: el_bots_def el_ants_def el_cats_def el_dogs_def gt)
  have l: "title_links el_bots = [Some ''/events/nicar/s/2/'']"
    "title_links el_ants = [Some ''/events/nicar/s/1/'']"
    "title_links el_cats = [Some ''/events/nicar/s/3/'']"
    "title_links el_dogs = [Some ''/events/nicar/s/4/'']"
    by (simp_all add: el_bots_def el_ants_def el_cats_def el_dogs_def gt)
  have o: "get_text el_bots Event_title = Some ''Bots''"
    "get_text el_ants Event_title = Some ''Ants''"
    "get_text el_cats Event_title = Some ''Cats''"
    "get_text el_dogs Event_title = Some ''Dogs''"
    "get_text el_bots Event_speakers = None" "get_text el_ants Event_speakers = None"
    "get_text el_cats Event_speakers = None" "get_text el_dogs Event_speakers = None"
    "get_text el_bots Event_type = None" "get_text el_ants Event_type = None"
    "get_text el_cats Event_type = None" "get_text el_dogs Event_type = None"
    "get_text el_bots Event_content_p = None" "get_text el_ants Event_content_p = None"
    "get_text el_cats Event_content_p = None" "get_text el_dogs Event_content_p = None"
    "get_text el_bots Event_meta_h4 = None" "get_text el_ants Event_meta_h4 = None"
    "get_text el_cats Event_meta_h4 = None" "get_text el_dogs Event_meta_h4 = None"
    by (simp_all add: el_bots_def el_ants_def el_cats_def el_dogs_def gt)
  show "parse_session el_bots d
     = Inr (mk_session (Some ''Bots'') d ''09:00'' ''10:00'' 1 ''s/2'' ''/events/nicar/s/2/'')"
    unfolding parse_session_eval[OF t(1) split_dash_values(1) convert_time_values(2,3) l(1)
          calculate_length_values(1) py_round_values(1)]
    by (simp only: o slice_values mk_session_def map_option_case option.case)
  show "parse_session el_ants d
     = Inr (mk_session (Some ''Ants'') d ''09:00'' ''10:00'' 1 ''s/1'' ''/events/nicar/s/1/'')"
    unfolding parse_session_eval[OF t(2) split_dash_values(1) convert_time_values(2,3) l(2)
          calculate_length_values(1) py_round_values(1)]
    by (simp only: o slice_values mk_session_def map_option_case option.case)
  show "parse_session el_cats d
     = Inr (mk_session (Some ''Cats'') d ''08:00'' ''09:30'' (3 / 2) ''s/3'' ''/events/nicar/s/3/'')"
    unfolding parse_session_eval[OF t(3) split_dash_values(2) convert_time_values(1,4) l(3)
          calculate_length_values(3) py_round_values(2)]
    by (simp only: o slice_values mk_session_def map_option_case option.case)
  show "parse_session el_dogs d
     = Inr (mk_session (Some ''Dogs'') d ''08:00'' ''09:00'' 1 ''s/4'' ''/events/nicar/s/4/'')"
    unfolding parse_session_eval[OF t(4) split_dash_values(3) convert_time_values(1,2) l(4)
          calculate_length_values(2) py_round_values(1)]
    by (simp only: o slice_values mk_session_def map_option_case option.case)
qed

theorem calculate_length_quotient_witness:
  "is_digits ''08'' \<and> is_digits ''00'' \<and> is_digits ''09'' \<and> is_digits ''30''
   \<and> calculate_length ''08:00'' ''09:30'' = Inr (3 / 2)
   \<and> \<bar>(3 / 2 :: rat) - of_int 90 / 60\<bar> \<le> \<bar>of_int 90 / 60\<bar> / 2 ^ 53
   \<and> (\<exists>q. int_truediv 90 60 = Inr q)
   \<and> (\<exists>q. calculate_length ''08:00'' ''09:30'' = Inr q \<and> py_round q 3 = Inr (3 / 2))
   \<and> (\<exists>k. \<bar>of_int k - (3 / 2 :: rat) * 1000\<bar> \<le> 1 / 2 \<and> nearest_double k 1000 = Some (3 / 2))"
proof -
  note th = calculate_length_quotient
  have d: "is_digits ''08'' \<and> is_digits ''00'' \<and> is_digits ''09'' \<and> is_digits ''30''"
    by (simp add: digits_values)
  have "calculate_length (''08'' @ '':'' @ ''00'') (''09'' @ '':'' @ ''30'')
        = int_truediv ((int (decimal ''09'') * 60 + int (decimal ''30''))
                       - (int (decimal ''08'') * 60 + int (decimal ''00''))) 60"
    using th d by blast
  then have 1: "calculate_length ''08:00'' ''09:30'' = Inr (3 / 2)"
    by (simp add: digits_values int_truediv_values)
  have 2: "\<bar>(3 / 2 :: rat) - of_int 90 / 60\<bar> \<le> \<bar>of_int 90 / 60\<bar> / 2 ^ 53"
    using th int_truediv_values(2) by blast
  have "\<bar>90 :: int\<bar> < 2 ^ 1000" by simp
  then have 3: "\<exists>q. int_truediv 90 60 = Inr q" using th by blast
  have p: "parse_session el_cats ''2019-03-06''
     = Inr (mk_session (Some ''Cats'') ''2019-03-06'' ''08:00'' ''09:30'' (3 / 2) ''s/3''
              ''/events/nicar/s/3/'')"
    by (rule parse_two_days(3))
  have "\<exists>q. calculate_length
              (time_start (mk_session (Some ''Cats'') ''2019-03-06'' ''08:00'' ''09:30'' (3 / 2)
                             ''s/3'' ''/events/nicar/s/3/''))
              (time_end (mk_session (Some ''Cats'') ''2019-03-06'' ''08:00'' ''09:30'' (3 / 2)
                             ''s/3'' ''/events/nicar/s/3/'')) = Inr q
            \<and> py_round q 3
              = Inr (length_in_hours (mk_session (Some ''Cats'') ''2019-03-06'' ''08:00''
                                        ''09:30'' (3 / 2) ''s/3'' ''/events/nicar/s/3/''))"
    using th p by blast
  then have 4: "\<exists>q. calculate_length ''08:00'' ''09:30'' = Inr q \<and> py_round q 3 = Inr (3 / 2)"
    by (simp add: mk_session_def)
  have 5: "\<exists>k. \<bar>of_int k - (3 / 2 :: rat) * 1000\<bar> \<le> 1 / 2 \<and> nearest_double k 1000 = Some (3 / 2)"
    using th py_round_values(2) by blast
  show ?thesis using d 1 2 3 4 5 by blast
qed

lemma extract_two_days:
  "extract_sessions two_days =
     Inr [mk_session (Some ''Bots'') ''2019-03-06'' ''09:00'' ''10:00'' 1 ''s/2'' ''/events/nicar/s/2/'',
          mk_session (Some ''Ants'') ''2019-03-06'' ''09:00'' ''10:00'' 1 ''s/1'' ''/events/nicar/s/1/'',
          mk_session (Some ''Cats'') ''2019-03-06'' ''08:00'' ''09:30'' (3 / 2) ''s/3'' ''/events/nicar/s/3/'',
          mk_session (Some ''Dogs'') ''2019-03-07'' ''08:00'' ''09:00'' 1 ''s/4'' ''/events/nicar/s/4/'']"
  by (simp add: extract_sessions_def two_days_def DATES_def parse_day_def parse_two_days)

lemma itemgetter_mk_session [simp]:
  "itemgetter (mk_session ttl d ts te len eid href) = (d, ts, te, ttl)"
  by (simp add: itemgetter_def mk_session_def)

lemma get_sessions_two_days:
  "get_sessions two_days =
     Inr [mk_session (Some ''Cats'') ''2019-03-06'' ''08:00'' ''09:30'' (3 / 2) ''s/3'' ''/events/nicar/s/3/'',
          mk_session (Some ''Ants'') ''2019-03-06'' ''09:00'' ''10:00'' 1 ''s/1'' ''/events/nicar/s/1/'',
          mk_session (Some ''Bots'') ''2019-03-06'' ''09:00'' ''10:00'' 1 ''s/2'' ''/events/nicar/s/2/'',
          mk_session (Some ''Dogs'') ''2019-03-07'' ''08:00'' ''09:00'' 1 ''s/4'' ''/events/nicar/s/4/'']"
  by (simp add: get_sessions_def extract_two_days py_sorted_def less_char_def)

subsection \<open>\<^verbatim>\<open>get_sessions\<close>: the order of the result\<close>

lemma get_sessions_Inr:
  "get_sessions day_els = Inr out \<longleftrightarrow>
     (\<exists>ss. extract_sessions day_els = Inr ss \<and> py_sorted ss = Inr out)"
  by (simp add: get_sessions_def bind_err_eq_Inr)

lemma session_le_fields:
  "session_le a b \<longleftrightarrow>
     date a < date b \<or> (date a = date b \<and>
       (time_start a < time_start b \<or> (time_start a = time_start b \<and>
         (time_end a < time_end b \<or> (time_end a = time_end b \<and>
           (title a = title b \<or> (\<exists>x y. title a = Some x \<and> title b = Some y \<and> x < y)))))))"
  by (cases "title a"; cases "title b") (auto simp: session_le_def itemgetter_def)

text \<open>
  C2. When \<^verbatim>\<open>get_sessions\<close> returns, its result is the extracted list in a stable
  sort by \<^verbatim>\<open>(date, time_start, time_end, title)\<close>: it has the same records, records with
  equal keys keep their order, and every record's key is at most the key of every later
  record, adjacent ones in particular. So a record of an earlier date comes first,
  within a date an earlier start comes first, then an earlier end, then the smaller
  title.
\<close>

theorem get_sessions_sorted:
  assumes "get_sessions day_els = Inr out"
  shows "\<exists>ss. extract_sessions day_els = Inr ss
          \<and> mset out = mset ss
          \<and> (\<forall>k. filter (\<lambda>s. itemgetter s = k) out = filter (\<lambda>s. itemgetter s = k) ss)
          \<and> (\<forall>i. Suc i < length out \<longrightarrow> session_le (out ! i) (out ! Suc i))
          \<and> (\<forall>i j. i < j \<and> j < length out \<longrightarrow>
                date (out ! i) \<le> date (out ! j)
                \<and> (date (out ! i) = date (out ! j) \<longrightarrow>
                     time_start (out ! i) \<le> time_start (out ! j)
                     \<and> (time_start (out ! i) = time_start (out ! j) \<longrightarrow>
                          time_end (out ! i) \<le> time_end (out ! j)
                          \<and> (time_end (out ! i) = time_end (out ! j) \<longrightarrow>
                               title (out ! i) = title (out ! j)
                               \<or> (\<exists>x y. title (out ! i) = Some x \<and> title (out ! j) = Some y
                                        \<and> x < y)))))"
proof -
  from assms obtain ss where ex: "extract_sessions day_els = Inr ss"
    and so: "py_sorted ss = Inr out"
    by (auto simp: get_sessions_Inr)
  have sorted: "sorted_wrt session_le out" by (rule py_sorted_props(1)[OF so])
  have le: "session_le (out ! i) (out ! j)" if "i < j" "j < length out" for i j
    using sorted that by (simp add: sorted_wrt_iff_nth_less)
  have adj: "\<forall>i. Suc i < length out \<longrightarrow> session_le (out ! i) (out ! Suc i)"
    using le by simp
  have fields: "date (out ! i) \<le> date (out ! j)
                \<and> (date (out ! i) = date (out ! j) \<longrightarrow>
                     time_start (out ! i) \<le> time_start (out ! j)
                     \<and> (time_start (out ! i) = time_start (out ! j) \<longrightarrow>
                          time_end (out ! i) \<le> time_end (out ! j)
                          \<and> (time_end (out ! i) = time_end (out ! j) \<longrightarrow>
                               title (out ! i) = title (out ! j)
                               \<or> (\<exists>x y. title (out ! i) = Some x \<and> title (out ! j) = Some y
                                        \<and> x < y))))"
    if "i < j \<and> j < length out" for i j
    using le[of i j] that unfolding session_le_fields by auto
  show ?thesis
    using ex py_sorted_props(2,3)[OF so] adj fields by blast
qed

theorem get_sessions_sorted_witness:
  "get_sessions two_days =
     Inr [mk_session (Some ''Cats'') ''2019-03-06'' ''08:00'' ''09:30'' (3 / 2) ''s/3'' ''/events/nicar/s/3/'',
          mk_session (Some ''Ants'') ''2019-03-06'' ''09:00'' ''10:00'' 1 ''s/1'' ''/events/nicar/s/1/'',
          mk_session (Some ''Bots'') ''2019-03-06'' ''09:00'' ''10:00'' 1 ''s/2'' ''/events/nicar/s/2/'',
          mk_session (Some ''Dogs'') ''2019-03-07'' ''08:00'' ''09:00'' 1 ''s/4'' ''/events/nicar/s/4/'']
   \<and> session_le
        (mk_session (Some ''Cats'') ''2019-03-06'' ''08:00'' ''09:30'' (3 / 2) ''s/3'' ''/events/nicar/s/3/'')
        (mk_session (Some ''Ants'') ''2019-03-06'' ''09:00'' ''10:00'' 1 ''s/1'' ''/events/nicar/s/1/'')
   \<and> session_le
        (mk_session (Some ''Ants'') ''2019-03-06'' ''09:00'' ''10:00'' 1 ''s/1'' ''/events/nicar/s/1/'')
        (mk_session (Some ''Bots'') ''2019-03-06'' ''09:00'' ''10:00'' 1 ''s/2'' ''/events/nicar/s/2/'')
   \<and> session_le
        (mk_session (Some ''Bots'') ''2019-03-06'' ''09:00'' ''10:00'' 1 ''s/2'' ''/events/nicar/s/2/'')
        (mk_session (Some ''Dogs'') ''2019-03-07'' ''08:00'' ''09:00'' 1 ''s/4'' ''/events/nicar/s/4/'')"
proof -
  let ?out = "[mk_session (Some ''Cats'') ''2019-03-06'' ''08:00'' ''09:30'' (3 / 2) ''s/3'' ''/events/nicar/s/3/'',
          mk_session (Some ''Ants'') ''2019-03-06'' ''09:00'' ''10:00'' 1 ''s/1'' ''/events/nicar/s/1/'',
          mk_session (Some ''Bots'') ''2019-03-06'' ''09:00'' ''10:00'' 1 ''s/2'' ''/events/nicar/s/2/'',
          mk_session (Some ''Dogs'') ''2019-03-07'' ''08:00'' ''09:00'' 1 ''s/4'' ''/events/nicar/s/4/'']"
  from get_sessions_sorted[OF get_sessions_two_days]
  have adj: "\<forall>i. Suc i < length ?out \<longrightarrow> session_le (?out ! i) (?out ! Suc i)"
    by blast
  have "session_le (?out ! 0) (?out ! Suc 0)"
    using adj[THEN spec, of 0] by simp
  moreover have "session_le (?out ! Suc 0) (?out ! Suc (Suc 0))"
    using adj[THEN spec, of "Suc 0"] by simp
  moreover have "session_le (?out ! Suc (Suc 0)) (?out ! Suc (Suc (Suc 0)))"
    using adj[THEN spec, of "Suc (Suc 0)"] by simp
  ultimately show ?thesis using get_sessions_two_days by simp
qed

subsection \<open>\<^verbatim>\<open>get_sessions\<close>: days and dates\<close>

lemma map_raising_Inr_iff:
  "map_raising f xs = Inr ys \<longleftrightarrow> list_all2 (\<lambda>x y. f x = Inr y) xs ys"
proof (induction xs arbitrary: ys)
  case Nil
  then show ?case by auto
next
  case (Cons x xs)
  show ?case
    by (cases ys) (auto simp: bind_err_eq_Inr Cons.IH)
qed

lemma parse_session_date: "parse_session el d = Inr r \<Longrightarrow> date r = d"
  by (erule parse_session_InrE) (metis session.select_convs(5))

lemma parse_day_dates:
  assumes "parse_day el d = Inr ss"
  shows "\<forall>s \<in> set ss. date s = d"
proof
  fix s
  assume "s \<in> set ss"
  then obtain i where i: "i < length ss" "ss ! i = s" by (auto simp: in_set_conv_nth)
  from assms have "list_all2 (\<lambda>x y. parse_session x d = Inr y) el ss"
    by (simp add: parse_day_def map_raising_Inr_iff)
  then have "parse_session (el ! i) d = Inr (ss ! i)"
    using i(1) by (simp add: list_all2_conv_all_nth)
  then show "date s = d" using i(2) parse_session_date by blast
qed

lemma zip_take_length: "zip xs ys = zip (take (length ys) xs) ys"
proof (induction xs arbitrary: ys)
  case Nil
  then show ?case by simp
next
  case (Cons x xs)
  then show ?case by (cases ys) auto
qed

lemma length_DATES: "length DATES = 5"
  by (simp add: DATES_def)

lemma extract_sessions_take: "extract_sessions day_els = extract_sessions (take 5 day_els)"
  unfolding extract_sessions_def Let_def
  using zip_take_length[of day_els DATES] by (simp add: length_DATES)

lemma extract_sessions_Inr:
  assumes "extract_sessions day_els = Inr ss"
  shows "\<exists>nested. length nested = min (length day_els) 5 \<and> ss = concat nested
          \<and> (\<forall>i < length nested.
                parse_day (day_els ! i) (DATES ! i) = Inr (nested ! i)
                \<and> (\<forall>s \<in> set (nested ! i). date s = DATES ! i))"
proof -
  from assms obtain nested where
    m: "map_raising (\<lambda>(el, date'). parse_day el date') (zip day_els DATES) = Inr nested"
    and ss: "ss = concat nested"
    by (auto simp: extract_sessions_def bind_err_eq_Inr)
  from m have a: "list_all2 (\<lambda>x y. (case x of (el, date') \<Rightarrow> parse_day el date') = Inr y)
                    (zip day_els DATES) nested"
    by (simp add: map_raising_Inr_iff)
  then have len: "length nested = min (length day_els) 5"
    by (auto simp: list_all2_conv_all_nth length_DATES)
  have "parse_day (day_els ! i) (DATES ! i) = Inr (nested ! i)
        \<and> (\<forall>s \<in> set (nested ! i). date s = DATES ! i)" if "i < length nested" for i
  proof -
    have "i < length (zip day_els DATES)" using that a by (simp add: list_all2_conv_all_nth)
    then have "(case zip day_els DATES ! i of (el, date') \<Rightarrow> parse_day el date') = Inr (nested ! i)"
      using a by (simp add: list_all2_conv_all_nth)
    then have p: "parse_day (day_els ! i) (DATES ! i) = Inr (nested ! i)"
      using \<open>i < length (zip day_els DATES)\<close> by simp
    with parse_day_dates[OF p] show ?thesis by simp
  qed
  with len ss show ?thesis by blast
qed

text \<open>
  C6. The day elements are paired with the five dates by position, up to the shorter of
  the two lists. Day elements after the fifth are dropped without being parsed, so the
  result is that of the first five; with fewer than five day elements the remaining
  dates are not used. Each session of the \<open>i\<close>-th day element carries the \<open>i\<close>-th date.
\<close>

theorem days_zipped_truncation:
  "length (zip day_els DATES) = min (length day_els) 5
   \<and> (\<forall>i < min (length day_els) 5. zip day_els DATES ! i = (day_els ! i, DATES ! i))
   \<and> extract_sessions day_els = extract_sessions (take 5 day_els)
   \<and> get_sessions day_els = get_sessions (take 5 day_els)
   \<and> (\<forall>ss. extract_sessions day_els = Inr ss \<longrightarrow>
         (\<exists>nested. length nested = min (length day_els) 5 \<and> ss = concat nested
            \<and> (\<forall>i < length nested.
                  parse_day (day_els ! i) (DATES ! i) = Inr (nested ! i)
                  \<and> (\<forall>s \<in> set (nested ! i). date s = DATES ! i))))
   \<and> (\<forall>out. get_sessions day_els = Inr out \<longrightarrow>
         (\<forall>s \<in> set out. date s \<in> set (take (length day_els) DATES)))"
proof (intro conjI allI impI)
  show "length (zip day_els DATES) = min (length day_els) 5"
    by (simp add: length_DATES)
  show "zip day_els DATES ! i = (day_els ! i, DATES ! i)" if "i < min (length day_els) 5" for i
    using that by (simp add: length_DATES)
  show "extract_sessions day_els = extract_sessions (take 5 day_els)"
    by (rule extract_sessions_take)
  then show "get_sessions day_els = get_sessions (take 5 day_els)"
    by (simp add: get_sessions_def)
  show "\<exists>nested. length nested = min (length day_els) 5 \<and> ss = concat nested
            \<and> (\<forall>i < length nested.
                  parse_day (day_els ! i) (DATES ! i) = Inr (nested ! i)
                  \<and> (\<forall>s \<in> set (nested ! i). date s = DATES ! i))"
    if "extract_sessions day_els = Inr ss" for ss
    using that by (rule extract_sessions_Inr)
  show "\<forall>s \<in> set out. date s \<in> set (take (length day_els) DATES)"
    if "get_sessions day_els = Inr out" for out
  proof
    fix s
    assume s: "s \<in> set out"
    from that obtain ss where ex: "extract_sessions day_els = Inr ss"
      and so: "py_sorted ss = Inr out"
      by (auto simp: get_sessions_Inr)
    have "set_mset (mset out) = set_mset (mset ss)"
      using py_sorted_props(2)[OF so] by simp
    with s have "s \<in> set ss" by simp
    moreover from extract_sessions_Inr[OF ex] obtain nested where
      n: "length nested = min (length day_els) 5" "ss = concat nested"
        "\<forall>i < length nested. \<forall>s \<in> set (nested ! i). date s = DATES ! i"
      by blast
    ultimately obtain xs where "xs \<in> set nested" "s \<in> set xs"
      by auto
    then obtain i where i: "i < length nested" "s \<in> set (nested ! i)"
      by (metis in_set_conv_nth)
    then have "date s = DATES ! i" using n(3) by blast
    moreover have "i < length (take (length day_els) DATES)"
      using i(1) n(1) by (simp add: length_DATES)
    ultimately have "date s = take (length day_els) DATES ! i" by simp
    then show "date s \<in> set (take (length day_els) DATES)"
      using \<open>i < length (take (length day_els) DATES)\<close> nth_mem by metis
  qed
qed

theorem days_zipped_truncation_witness:
  "get_sessions [[el_dogs], [], [], [], [], [mk_element [] [] [] []]]
     = Inr [mk_session (Some ''Dogs'') ''2019-03-06'' ''08:00'' ''09:00'' 1 ''s/4'' ''/events/nicar/s/4/'']
   \<and> parse_session (mk_element [] [] [] []) ''2019-03-06'' = Inl AttributeError
   \<and> date (mk_session (Some ''Dogs'') ''2019-03-06'' ''08:00'' ''09:00'' 1 ''s/4'' ''/events/nicar/s/4/'')
       \<in> set (take (length [[el_dogs], [], [], [], [], [mk_element [] [] [] []]]) DATES)
   \<and> zip two_days DATES ! 1 = (two_days ! 1, DATES ! 1)"
proof -
  let ?page = "[[el_dogs], [], [], [], [], [mk_element [] [] [] []]]"
  let ?dogs = "mk_session (Some ''Dogs'') ''2019-03-06'' ''08:00'' ''09:00'' 1 ''s/4'' ''/events/nicar/s/4/''"
  note th = days_zipped_truncation[of ?page]
  have "get_sessions ?page = get_sessions (take 5 ?page)" using th by blast
  also have "\<dots> = Inr [?dogs]"
    by (simp add: get_sessions_def extract_sessions_def DATES_def parse_day_def
          parse_two_days py_sorted_def)
  finally have 1: "get_sessions ?page = Inr [?dogs]" .
  have 2: "parse_session (mk_element [] [] [] []) ''2019-03-06'' = Inl AttributeError"
    by (simp add: parse_session_def get_text_mk_element join_stripped_Nil)
  have "\<forall>s \<in> set [?dogs]. date s \<in> set (take (length ?page) DATES)"
    using th 1 by blast
  then have 3: "date ?dogs \<in> set (take (length ?page) DATES)"
    by (rule bspec) (rule list.set_intros(1))
  have "(1::nat) < min (length two_days) 5" by (simp add: two_days_def)
  then have 4: "zip two_days DATES ! 1 = (two_days ! 1, DATES ! 1)"
    using days_zipped_truncation[of two_days] by blast
  show ?thesis using 1 2 3 4 by blast
qed

subsection \<open>Absent titles and the sort\<close>

lemma str_join_eq_Nil:
  "\<forall>x \<in> set xs. x \<noteq> [] \<Longrightarrow> str_join sep xs = [] \<longleftrightarrow> xs = []"
  by (induction sep xs rule: str_join.induct) auto

lemma join_stripped_None_iff:
  "join_stripped texts = None \<longleftrightarrow> (\<forall>t \<in> set texts. strip t = [])"
proof -
  let ?kept = "filter (\<lambda>s. length s \<noteq> 0) (map strip texts)"
  have "\<forall>x \<in> set ?kept. x \<noteq> []" by auto
  then have "str_join [CHR 0x0A, CHR 0x0A] ?kept = [] \<longleftrightarrow> ?kept = []"
    by (rule str_join_eq_Nil)
  also have "\<dots> \<longleftrightarrow> (\<forall>t \<in> set texts. strip t = [])"
    by (auto simp: filter_empty_conv)
  finally show ?thesis by (simp add: join_stripped_def Let_def)
qed

lemma get_text_None_iff:
  "get_text el sel = None \<longleftrightarrow> (\<forall>t \<in> set (text_contents el sel). strip t = [])"
  by (simp add: get_text_def join_stripped_None_iff)

lemma title_clash_iff:
  "title_clash a b \<longleftrightarrow>
     date a = date b \<and> time_start a = time_start b \<and> time_end a = time_end b
     \<and> ((title a = None \<and> title b \<noteq> None) \<or> (title a \<noteq> None \<and> title b = None))"
  by (auto simp: title_clash_def)

lemma get_sessions_TypeError_iff:
  assumes "extract_sessions day_els = Inr ss"
  shows "get_sessions day_els = Inl TypeError \<longleftrightarrow> (\<exists>a \<in> set ss. \<exists>b \<in> set ss. title_clash a b)"
    and "(\<exists>out. get_sessions day_els = Inr out) \<longleftrightarrow> \<not> (\<exists>a \<in> set ss. \<exists>b \<in> set ss. title_clash a b)"
proof -
  have g: "get_sessions day_els = py_sorted ss" using assms by (simp add: get_sessions_def)
  show 1: "get_sessions day_els = Inl TypeError \<longleftrightarrow> (\<exists>a \<in> set ss. \<exists>b \<in> set ss. title_clash a b)"
    unfolding g by (simp add: py_sorted_error_iff)
  show "(\<exists>out. get_sessions day_els = Inr out) \<longleftrightarrow> \<not> (\<exists>a \<in> set ss. \<exists>b \<in> set ss. title_clash a b)"
  proof (cases "py_sorted ss")
    case (Inl e)
    then show ?thesis unfolding g using py_sorted_error_iff[of ss e] by simp
  next
    case (Inr out)
    then show ?thesis unfolding g using py_sorted_error_iff[of ss TypeError] by simp
  qed
qed

lemma parse_blank:
  "parse_session el_blank1 d
     = Inr (mk_session None d ''09:00'' ''10:00'' 1 ''s/5'' ''/events/nicar/s/5/'')"
  "parse_session el_blank2 d
     = Inr (mk_session None d ''09:00'' ''10:00'' 1 ''s/6'' ''/events/nicar/s/6/'')"
proof -
  have b: "join_stripped ['' ''] = None"
    by (simp add: join_stripped_None_iff strip_def isspace_def)
  note gt = get_text_mk_element join_stripped_single join_stripped_Nil not_isspace_values b
  have t: "get_text el_blank1 Event_meta_p = Some ''9 am - 10 am''"
    "get_text el_blank2 Event_meta_p = Some ''9 am - 10 am''"
    by (simp_all add: el_blank1_def el_blank2_def gt)
  have l: "title_links el_blank1 = [Some ''/events/nicar/s/5/'']"
    "title_links el_blank2 = [Some ''/events/nicar/s/6/'']"
    by (simp_all add: el_blank1_def el_blank2_def gt)
  have o: "get_text el_blank1 Event_title = None" "get_text el_blank2 Event_title = None"
    "get_text el_blank1 Event_speakers = None" "get_text el_blank2 Event_speakers = None"
    "get_text el_blank1 Event_type = None" "get_text el_blank2 Event_type = None"
    "get_text el_blank1 Event_content_p = None" "get_text el_blank2 Event_content_p = None"
    "get_text el_blank1 Event_meta_h4 = None" "get_text el_blank2 Event_meta_h4 = None"
    by (simp_all add: el_blank1_def el_blank2_def gt)
  have s: "str_join ''/'' (py_slice (str_split ''/'' ''/events/nicar/s/5/'') (- 3) (- 1)) = ''s/5''"
    "str_join ''/'' (py_slice (str_split ''/'' ''/events/nicar/s/6/'') (- 3) (- 1)) = ''s/6''"
    by code_simp+
  show "parse_session el_blank1 d
     = Inr (mk_session None d ''09:00'' ''10:00'' 1 ''s/5'' ''/events/nicar/s/5/'')"
    unfolding parse_session_eval[OF t(1) split_dash_values(1) convert_time_values(2,3) l(1)
          calculate_length_values(1) py_round_values(1)]
    by (simp only: o s mk_session_def map_option_case option.case)
  show "parse_session el_blank2 d
     = Inr (mk_session None d ''09:00'' ''10:00'' 1 ''s/6'' ''/events/nicar/s/6/'')"
    unfolding parse_session_eval[OF t(2) split_dash_values(1) convert_time_values(2,3) l(2)
          calculate_length_values(1) py_round_values(1)]
    by (simp only: o s mk_session_def map_option_case option.case)
qed

theorem sort_two_untitled:
  "get_sessions [[el_blank1, el_blank2]]
     = Inr [mk_session None ''2019-03-06'' ''09:00'' ''10:00'' 1 ''s/5'' ''/events/nicar/s/5/'',
            mk_session None ''2019-03-06'' ''09:00'' ''10:00'' 1 ''s/6'' ''/events/nicar/s/6/'']"
  by (simp add: get_sessions_def extract_sessions_def DATES_def parse_day_def parse_blank
        py_sorted_def)

text \<open>
  C10, amended. The title of a parsed record is \<^verbatim>\<open>None\<close> exactly when every text under
  the title selector is blank, whatever the title link is. Comparing two keys that agree
  on date, start and end raises \<^verbatim>\<open>TypeError\<close> when one title is \<^verbatim>\<open>None\<close> and the other
  a string, in either direction, and does not raise when both are \<^verbatim>\<open>None\<close>. Once the
  sessions are extracted, \<^verbatim>\<open>get_sessions\<close> raises \<^verbatim>\<open>TypeError\<close> exactly when two of
  them share date, start and end and exactly one of the two has no title; otherwise it
  returns.
\<close>

theorem title_none_sort:
  "(\<forall>el d r. parse_session el d = Inr r \<longrightarrow>
      (title r = None \<longleftrightarrow> (\<forall>t \<in> set (text_contents el Event_title). strip t = []))
      \<and> title_links el \<noteq> [])
   \<and> (\<forall>d s e t. tuple_lt (d, s, e, None) (d, s, e, Some t) = Inl TypeError
               \<and> tuple_lt (d, s, e, Some t) (d, s, e, None) = Inl TypeError
               \<and> tuple_lt (d, s, e, None) (d, s, e, None) = Inr False)
   \<and> (\<forall>day_els ss. extract_sessions day_els = Inr ss \<longrightarrow>
         (get_sessions day_els = Inl TypeError \<longleftrightarrow>
            (\<exists>a \<in> set ss. \<exists>b \<in> set ss.
               date a = date b \<and> time_start a = time_start b \<and> time_end a = time_end b
               \<and> ((title a = None \<and> title b \<noteq> None) \<or> (title a \<noteq> None \<and> title b = None))))
         \<and> ((\<exists>out. get_sessions day_els = Inr out) \<longleftrightarrow>
            \<not> (\<exists>a \<in> set ss. \<exists>b \<in> set ss.
               date a = date b \<and> time_start a = time_start b \<and> time_end a = time_end b
               \<and> ((title a = None \<and> title b \<noteq> None) \<or> (title a \<noteq> None \<and> title b = None)))))"
proof (intro conjI allI impI)
  fix el d r
  assume p: "parse_session el d = Inr r"
  then show "title r = None \<longleftrightarrow> (\<forall>t \<in> set (text_contents el Event_title). strip t = [])"
    by (elim parse_session_InrE) (metis get_text_None_iff session.select_convs(1))
  from p show "title_links el \<noteq> []"
    by (elim parse_session_InrE) simp
next
  fix d s e :: string and t :: string
  show "tuple_lt (d, s, e, None) (d, s, e, Some t) = Inl TypeError" by simp
  show "tuple_lt (d, s, e, Some t) (d, s, e, None) = Inl TypeError" by simp
  show "tuple_lt (d, s, e, None) (d, s, e, None) = Inr False" by simp
next
  fix day_els ss
  assume ex: "extract_sessions day_els = Inr ss"
  show "get_sessions day_els = Inl TypeError \<longleftrightarrow>
            (\<exists>a \<in> set ss. \<exists>b \<in> set ss.
               date a = date b \<and> time_start a = time_start b \<and> time_end a = time_end b
               \<and> ((title a = None \<and> title b \<noteq> None) \<or> (title a \<noteq> None \<and> title b = None)))"
    unfolding get_sessions_TypeError_iff(1)[OF ex] title_clash_iff ..
  show "(\<exists>out. get_sessions day_els = Inr out) \<longleftrightarrow>
            \<not> (\<exists>a \<in> set ss. \<exists>b \<in> set ss.
               date a = date b \<and> time_start a = time_start b \<and> time_end a = time_end b
               \<and> ((title a = None \<and> title b \<noteq> None) \<or> (title a \<noteq> None \<and> title b = None)))"
    unfolding get_sessions_TypeError_iff(2)[OF ex] title_clash_iff ..
qed

theorem title_none_sort_witness:
  "parse_session el_blank1 ''2019-03-06''
     = Inr (mk_session None ''2019-03-06'' ''09:00'' ''10:00'' 1 ''s/5'' ''/events/nicar/s/5/'')
   \<and> strip '' '' = []
   \<and> title_links el_blank1 = [Some ''/events/nicar/s/5/'']
   \<and> extract_sessions [[el_blank1, el_bots]]
     = Inr [mk_session None ''2019-03-06'' ''09:00'' ''10:00'' 1 ''s/5'' ''/events/nicar/s/5/'',
            mk_session (Some ''Bots'') ''2019-03-06'' ''09:00'' ''10:00'' 1 ''s/2'' ''/events/nicar/s/2/'']
   \<and> get_sessions [[el_blank1, el_bots]] = Inl TypeError"
proof -
  let ?b = "mk_session None ''2019-03-06'' ''09:00'' ''10:00'' 1 ''s/5'' ''/events/nicar/s/5/''"
  let ?s = "mk_session (Some ''Bots'') ''2019-03-06'' ''09:00'' ''10:00'' 1 ''s/2'' ''/events/nicar/s/2/''"
  have p: "parse_session el_blank1 ''2019-03-06'' = Inr ?b" by (rule parse_blank(1))
  have "title ?b = None" by (simp add: mk_session_def)
  then have "\<forall>t \<in> set (text_contents el_blank1 Event_title). strip t = []"
    using title_none_sort p by blast
  then have 1: "strip '' '' = []" by (simp add: el_blank1_def mk_element_def)
  have 2: "title_links el_blank1 = [Some ''/events/nicar/s/5/'']"
    by (simp add: el_blank1_def mk_element_def)
  have ex: "extract_sessions [[el_blank1, el_bots]] = Inr [?b, ?s]"
    by (simp add: extract_sessions_def DATES_def parse_day_def parse_blank parse_two_days)
  have clash: "\<exists>a \<in> set [?b, ?s]. \<exists>b \<in> set [?b, ?s].
               date a = date b \<and> time_start a = time_start b \<and> time_end a = time_end b
               \<and> ((title a = None \<and> title b \<noteq> None) \<or> (title a \<noteq> None \<and> title b = None))"
    by (simp add: mk_session_def)
  note th = title_none_sort[THEN conjunct2, THEN conjunct2, rule_format, OF ex]
  have 3: "get_sessions [[el_blank1, el_bots]] = Inl TypeError"
    by (rule th[THEN conjunct1, THEN iffD2, OF clash])
  show ?thesis using p 1 2 ex 3 by blast
qed

subsection \<open>The event identifier\<close>

lemma py_slice_last_two:
  assumes "3 \<le> length xs"
  shows "py_slice xs (- 3) (- 1) = [xs ! (length xs - 3), xs ! (length xs - 2)]"
proof -
  define n where "n = length xs"
  have n3: "3 \<le> n" using assms by (simp add: n_def)
  have "drop (n - 3) xs = xs ! (n - 3) # drop (Suc (n - 3)) xs"
    using n3 by (intro Cons_nth_drop_Suc[symmetric]) (simp add: n_def[symmetric])
  also have "Suc (n - 3) = n - 2" using n3 by simp
  also have "drop (n - 2) xs = xs ! (n - 2) # drop (Suc (n - 2)) xs"
    using n3 by (intro Cons_nth_drop_Suc[symmetric]) (simp add: n_def[symmetric])
  finally have "take 2 (drop (n - 3) xs) = [xs ! (n - 3), xs ! (n - 2)]"
    by (simp add: numeral_2_eq_2)
  moreover have "nat (int n - 3) = n - 3" "nat (int n - 1 - (int n - 3)) = 2"
    using n3 by simp_all
  ultimately show ?thesis
    using n3 by (simp add: py_slice_def Let_def n_def[symmetric] max_def)
qed

lemma py_slice_short:
  "length xs = 2 \<Longrightarrow> py_slice xs (- 3) (- 1) = [xs ! 0]"
  "length xs \<le> 1 \<Longrightarrow> py_slice xs (- 3) (- 1) = []"
proof -
  show "py_slice xs (- 3) (- 1) = [xs ! 0]" if "length xs = 2"
  proof -
    from that obtain a b where "xs = [a, b]"
      by (cases xs; cases "tl xs") auto
    then show ?thesis by (simp add: py_slice_def)
  qed
  show "py_slice xs (- 3) (- 1) = []" if "length xs \<le> 1"
    using that by (cases xs) (auto simp: py_slice_def Let_def max_def)
qed

lemma convert_time_error: "convert_time ts = Inl e \<Longrightarrow> \<exists>v. e = ValueError v"
  unfolding convert_time_def
  by (auto simp: bind_err_eq_Inl split: if_splits dest: unpack2_error to_24h_error)

lemma unpack_map2_convert_time_error:
  "unpack_map2 convert_time xs = Inl e \<Longrightarrow> \<exists>v. e = ValueError v"
  by (induction convert_time xs rule: unpack_map2.induct)
     (auto simp: bind_err_eq_Inl dest: convert_time_error)

lemma calculate_length_error:
  "calculate_length a b = Inl e \<Longrightarrow> (\<exists>v. e = ValueError v) \<or> e = OverflowError"
  unfolding calculate_length_def int_truediv_def
  by (auto simp: bind_err_eq_Inl split: option.splits
           dest: unpack2_error map_raising_py_int_error)

lemma py_round_error: "py_round q n = Inl e \<Longrightarrow> e = OverflowError"
  by (auto simp: py_round_def split: option.splits)

lemma parse_session_IndexError:
  assumes "parse_session el d = Inl IndexError"
  shows "title_links el = []"
proof (rule ccontr)
  assume ne: "title_links el \<noteq> []"
  from assms obtain s_time where t: "get_text el Event_meta_p = Some s_time"
    by (cases "get_text el Event_meta_p") (simp_all add: parse_session_def)
  from assms t obtain ts te where
    u: "unpack_map2 convert_time (str_split '' - '' s_time) = Inr (ts, te)"
    by (cases "unpack_map2 convert_time (str_split '' - '' s_time)")
       (auto simp: parse_session_def dest: unpack_map2_convert_time_error)
  from ne obtain l rest where l: "title_links el = l # rest" by (cases "title_links el") auto
  from assms t u l obtain href where h: "l = Some href"
    by (cases l) (auto simp: parse_session_def)
  from assms t u l h obtain len where c: "calculate_length ts te = Inr len"
    by (cases "calculate_length ts te")
       (auto simp: parse_session_def dest: calculate_length_error)
  from assms t u l h c show False
    by (cases "py_round len 3") (auto simp: parse_session_def dest: py_round_error)
qed

theorem short_href_no_error:
  "parse_session el_short_href ''2019-03-06''
     = Inr (mk_session (Some ''Bots'') ''2019-03-06'' ''09:00'' ''10:00'' 1 [] ''abc'')"
proof -
  note gt = get_text_mk_element join_stripped_single join_stripped_Nil not_isspace_values
  have t: "get_text el_short_href Event_meta_p = Some ''9 am - 10 am''"
    by (simp add: el_short_href_def gt)
  have l: "title_links el_short_href = [Some ''abc'']"
    by (simp add: el_short_href_def gt)
  have o: "get_text el_short_href Event_title = Some ''Bots''"
    "get_text el_short_href Event_speakers = None"
    "get_text el_short_href Event_type = None"
    "get_text el_short_href Event_content_p = None"
    "get_text el_short_href Event_meta_h4 = None"
    by (simp_all add: el_short_href_def gt)
  have s: "str_join ''/'' (py_slice (str_split ''/'' ''abc'') (- 3) (- 1)) = []"
    by code_simp
  show ?thesis
    unfolding parse_session_eval[OF t split_dash_values(1) convert_time_values(2,3) l
          calculate_length_values(1) py_round_values(1)]
    by (simp only: o s mk_session_def map_option_case option.case)
qed

text \<open>
  C4, amended. The \<^verbatim>\<open>event_id\<close> of a parsed record is the slice \<^verbatim>\<open>[-3:-1]\<close> of the
  \<^verbatim>\<open>/\<close>-separated segments of the first title link's \<^verbatim>\<open>href\<close>, joined with \<^verbatim>\<open>/\<close>:
  the third-from-last and second-from-last segments when there are at least three, the
  first segment when there are two, and the empty string when there is one. A short
  \<^verbatim>\<open>href\<close> raises nothing; \<^verbatim>\<open>parse_session\<close> raises \<^verbatim>\<open>IndexError\<close> only when the
  element has no title link at all.
\<close>

theorem event_id_segments:
  "(\<forall>el d r. parse_session el d = Inr r \<longrightarrow>
      (\<exists>href rest. title_links el = Some href # rest
         \<and> event_id r = str_join ''/'' (py_slice (str_split ''/'' href) (- 3) (- 1))))
   \<and> (\<forall>segs :: string list.
        (3 \<le> length segs \<longrightarrow>
           str_join ''/'' (py_slice segs (- 3) (- 1))
           = segs ! (length segs - 3) @ ''/'' @ segs ! (length segs - 2))
        \<and> (length segs = 2 \<longrightarrow> str_join ''/'' (py_slice segs (- 3) (- 1)) = segs ! 0)
        \<and> (length segs \<le> 1 \<longrightarrow> str_join ''/'' (py_slice segs (- 3) (- 1)) = []))
   \<and> (\<forall>el d. parse_session el d = Inl IndexError \<longrightarrow> title_links el = [])"
proof (intro conjI allI impI)
  fix el d r
  assume "parse_session el d = Inr r"
  then show "\<exists>href rest. title_links el = Some href # rest
         \<and> event_id r = str_join ''/'' (py_slice (str_split ''/'' href) (- 3) (- 1))"
    by (elim parse_session_InrE) (metis session.select_convs(10))
next
  fix segs :: "string list"
  show "str_join ''/'' (py_slice segs (- 3) (- 1))
           = segs ! (length segs - 3) @ ''/'' @ segs ! (length segs - 2)"
    if "3 \<le> length segs"
    by (simp add: py_slice_last_two[OF that])
  show "str_join ''/'' (py_slice segs (- 3) (- 1)) = segs ! 0" if "length segs = 2"
    by (simp add: py_slice_short(1)[OF that])
  show "str_join ''/'' (py_slice segs (- 3) (- 1)) = []" if "length segs \<le> 1"
    by (simp add: py_slice_short(2)[OF that])
next
  fix el d
  assume "parse_session el d = Inl IndexError"
  then show "title_links el = []" by (rule parse_session_IndexError)
qed

theorem event_id_segments_witness:
  "event_id (mk_session (Some ''Bots'') ''2019-03-06'' ''09:00'' ''10:00'' 1 ''s/2'' ''/events/nicar/s/2/'')
     = str_join ''/'' (py_slice (str_split ''/'' ''/events/nicar/s/2/'') (- 3) (- 1))
   \<and> str_join ''/'' (py_slice [''a'', ''b'', ''c'', ''d''] (- 3) (- 1)) = ''b/c''
   \<and> str_join ''/'' (py_slice [''a'', ''b''] (- 3) (- 1)) = ''a''
   \<and> str_join ''/'' (py_slice [''abc''] (- 3) (- 1)) = []
   \<and> parse_session (mk_element [''Bots''] [''9 am - 10 am''] [] []) ''2019-03-06'' = Inl IndexError"
proof -
  let ?r = "mk_session (Some ''Bots'') ''2019-03-06'' ''09:00'' ''10:00'' 1 ''s/2'' ''/events/nicar/s/2/''"
  note th = event_id_segments
  have p: "parse_session el_bots ''2019-03-06'' = Inr ?r" by (rule parse_two_days(1))
  have l: "title_links el_bots = [Some ''/events/nicar/s/2/'']"
    by (simp add: el_bots_def mk_element_def)
  obtain href rest where "title_links el_bots = Some href # rest"
    "event_id ?r = str_join ''/'' (py_slice (str_split ''/'' href) (- 3) (- 1))"
    using th p by blast
  with l have 1: "event_id ?r
     = str_join ''/'' (py_slice (str_split ''/'' ''/events/nicar/s/2/'') (- 3) (- 1))"
    by simp
  have "(3::nat) \<le> length [''a'', ''b'', ''c'', ''d'']" by simp
  then have "str_join ''/'' (py_slice [''a'', ''b'', ''c'', ''d''] (- 3) (- 1))
      = [''a'', ''b'', ''c'', ''d''] ! (length [''a'', ''b'', ''c'', ''d''] - 3) @ ''/''
        @ [''a'', ''b'', ''c'', ''d''] ! (length [''a'', ''b'', ''c'', ''d''] - 2)"
    using th by blast
  then have 2: "str_join ''/'' (py_slice [''a'', ''b'', ''c'', ''d''] (- 3) (- 1)) = ''b/c''"
    by simp
  have "length [''a'', ''b''] = 2" by simp
  then have "str_join ''/'' (py_slice [''a'', ''b''] (- 3) (- 1)) = [''a'', ''b''] ! 0"
    using th by blast
  then have 3: "str_join ''/'' (py_slice [''a'', ''b''] (- 3) (- 1)) = ''a''" by simp
  have "length [''abc''] \<le> 1" by simp
  then have 4: "str_join ''/'' (py_slice [''abc''] (- 3) (- 1)) = []"
    using th by blast
  have 5: "parse_session (mk_element [''Bots''] [''9 am - 10 am''] [] []) ''2019-03-06''
           = Inl IndexError"
    by (simp add: parse_session_def get_text_mk_element join_stripped_single
          not_isspace_values split_dash_values convert_time_values)
  show ?thesis using 1 2 3 4 5 by blast
qed

subsection \<open>The speakers label\<close>

lemma colon_spaces_Some:
  assumes "colon_spaces t = Some r"
  shows "\<exists>ws. ws \<noteq> [] \<and> (\<forall>c \<in> set ws. isspace c) \<and> t = CHR '':'' # ws @ r"
proof -
  from assms obtain w rest where t: "t = CHR '':'' # w # rest" and w: "isspace w"
    and r: "r = dropWhile isspace rest"
    by (auto simp: colon_spaces_def split: list.splits if_splits)
  let ?ws = "w # takeWhile isspace rest"
  have "\<forall>c \<in> set ?ws. isspace c" using w by (auto dest: set_takeWhileD)
  moreover have "t = CHR '':'' # ?ws @ r" using t r by simp
  ultimately show ?thesis by blast
qed

lemma colon_spaces_match:
  assumes "ws \<noteq> []" "\<forall>c \<in> set ws. isspace c" "rest = [] \<or> \<not> isspace (hd rest)"
  shows "colon_spaces (CHR '':'' # ws @ rest) = Some rest"
proof -
  from assms(1) obtain w ws' where ws: "ws = w # ws'" by (cases ws) auto
  have "dropWhile isspace (ws' @ rest) = dropWhile isspace rest"
    using assms(2) ws by (simp add: dropWhile_append)
  also have "\<dots> = rest" using assms(3) by (cases rest) auto
  finally show ?thesis using assms(2) ws by (simp add: colon_spaces_def)
qed

lemma speakers_label_Some:
  assumes "speakers_label s = Some r"
  shows "\<exists>ws. ws \<noteq> [] \<and> (\<forall>c \<in> set ws. isspace c)
           \<and> (s = ''Speaker:'' @ ws @ r \<or> s = ''Speakers:'' @ ws @ r)"
proof -
  from assms have p: "prefix ''Speaker'' s"
    by (auto simp: speakers_label_def split: if_splits)
  then obtain t where s: "s = ''Speaker'' @ t" by (auto simp: prefix_def)
  then have d: "drop 7 s = t" by simp
  show ?thesis
  proof (cases "colon_spaces t")
    case (Some r')
    then have "t \<noteq> []" "hd t = CHR '':''"
      by (auto simp: colon_spaces_def split: list.splits if_splits)
    then have "speakers_label s = colon_spaces t"
      using p d by (cases t) (auto simp: speakers_label_def Let_def)
    with assms have "colon_spaces t = Some r" by simp
    from colon_spaces_Some[OF this] s show ?thesis by auto
  next
    case None
    with assms p d obtain t' where t: "t = CHR ''s'' # t'" and c: "colon_spaces t' = Some r"
      by (cases t) (auto simp: speakers_label_def Let_def split: if_splits option.splits)
    from colon_spaces_Some[OF c] s t show ?thesis by auto
  qed
qed

lemma speakers_label_match:
  assumes "ws \<noteq> []" "\<forall>c \<in> set ws. isspace c" "rest = [] \<or> \<not> isspace (hd rest)"
  shows "speakers_label (''Speaker:'' @ ws @ rest) = Some rest"
    and "speakers_label (''Speakers:'' @ ws @ rest) = Some rest"
  using colon_spaces_match[OF assms]
  by (simp_all add: speakers_label_def Let_def)

lemma sub_speakers_other:
  assumes "\<not> (\<exists>ws rest. ws \<noteq> [] \<and> (\<forall>c \<in> set ws. isspace c)
                \<and> (raw = ''Speaker:'' @ ws @ rest \<or> raw = ''Speakers:'' @ ws @ rest))"
  shows "sub_speakers raw = raw"
proof (cases "speakers_label raw")
  case None
  then show ?thesis by (simp add: sub_speakers_def)
next
  case (Some r)
  from speakers_label_Some[OF this] assms show ?thesis by blast
qed

lemma parse_two_spaces:
  "parse_session el_two_spaces d
     = Inr ((mk_session (Some ''Bots'') d ''09:00'' ''10:00'' 1 ''s/2'' ''/events/nicar/s/2/'')
              \<lparr>speakers := Some ''Bob''\<rparr>)"
proof -
  note gt = get_text_mk_element join_stripped_single join_stripped_Nil not_isspace_values
  have t: "get_text el_two_spaces Event_meta_p = Some ''9 am - 10 am''"
    by (simp add: el_two_spaces_def gt)
  have l: "title_links el_two_spaces = [Some ''/events/nicar/s/2/'']"
    by (simp add: el_two_spaces_def gt)
  have o: "get_text el_two_spaces Event_title = Some ''Bots''"
    "get_text el_two_spaces Event_speakers = Some ''Speakers:  Bob''"
    "get_text el_two_spaces Event_type = None"
    "get_text el_two_spaces Event_content_p = None"
    "get_text el_two_spaces Event_meta_h4 = None"
    by (simp_all add: el_two_spaces_def gt)
  have s: "sub_speakers ''Speakers:  Bob'' = ''Bob''"
    by (simp add: sub_speakers_def speakers_label_def colon_spaces_def isspace_def)
  show ?thesis
    unfolding parse_session_eval[OF t split_dash_values(1) convert_time_values(2,3) l
          calculate_length_values(1) py_round_values(1)]
    by (simp add: o s mk_session_def slice_values del: str_split.simps str_join.simps)
qed

theorem speakers_two_spaces:
  "parse_session el_two_spaces ''2019-03-06''
     = Inr ((mk_session (Some ''Bots'') ''2019-03-06'' ''09:00'' ''10:00'' 1 ''s/2''
               ''/events/nicar/s/2/'') \<lparr>speakers := Some ''Bob''\<rparr>)
   \<and> get_text el_two_spaces Event_speakers = Some ''Speakers:  Bob''
   \<and> strip_label_literal ''Speakers:  Bob'' = '' Bob''"
proof -
  have "get_text el_two_spaces Event_speakers = Some ''Speakers:  Bob''"
    by (simp add: el_two_spaces_def get_text_mk_element join_stripped_single not_isspace_values)
  moreover have "strip_label_literal ''Speakers:  Bob'' = '' Bob''"
    by (simp add: strip_label_literal_def)
  ultimately show ?thesis using parse_two_spaces by simp
qed

text \<open>
  C8, amended. The \<^verbatim>\<open>speakers\<close> field of a parsed record is \<^verbatim>\<open>None\<close> exactly when
  every text under the speakers selector is blank, and otherwise it is the raw speakers
  text with a leading label removed. The label is \<^verbatim>\<open>Speaker:\<close> or \<^verbatim>\<open>Speakers:\<close> together
  with all the white space that follows it, of which there must be at least one
  character of any kind (space, tab, line break); a text that does not start with such a
  label is kept as it is, a lower-case \<^verbatim>\<open>speakers: \<close> included.
\<close>

theorem speakers_label_stripped:
  "(\<forall>el d r. parse_session el d = Inr r \<longrightarrow>
      (speakers r = None \<longleftrightarrow> (\<forall>t \<in> set (text_contents el Event_speakers). strip t = []))
      \<and> (\<forall>raw. get_text el Event_speakers = Some raw \<longrightarrow> speakers r = Some (sub_speakers raw)))
   \<and> (\<forall>ws rest. ws \<noteq> [] \<and> (\<forall>c \<in> set ws. isspace c) \<and> (rest = [] \<or> \<not> isspace (hd rest)) \<longrightarrow>
         sub_speakers (''Speaker:'' @ ws @ rest) = rest
         \<and> sub_speakers (''Speakers:'' @ ws @ rest) = rest)
   \<and> (\<forall>raw. \<not> (\<exists>ws rest. ws \<noteq> [] \<and> (\<forall>c \<in> set ws. isspace c)
                   \<and> (raw = ''Speaker:'' @ ws @ rest \<or> raw = ''Speakers:'' @ ws @ rest)) \<longrightarrow>
         sub_speakers raw = raw)
   \<and> sub_speakers ''Speaker: Bob'' = ''Bob''
   \<and> sub_speakers ''Speakers: Bob'' = ''Bob''
   \<and> sub_speakers ''speakers: Bob'' = ''speakers: Bob''"
proof (intro conjI allI impI)
  fix el d r
  assume p: "parse_session el d = Inr r"
  then have sp: "speakers r = map_option sub_speakers (get_text el Event_speakers)"
    by (elim parse_session_InrE) (metis session.select_convs(4))
  show "speakers r = None \<longleftrightarrow> (\<forall>t \<in> set (text_contents el Event_speakers). strip t = [])"
    unfolding sp by (simp add: get_text_None_iff)
  show "speakers r = Some (sub_speakers raw)" if "get_text el Event_speakers = Some raw" for raw
    unfolding sp using that by simp
next
  fix ws rest
  assume a: "ws \<noteq> [] \<and> (\<forall>c \<in> set ws. isspace c) \<and> (rest = [] \<or> \<not> isspace (hd rest))"
  then have m: "speakers_label (''Speaker:'' @ ws @ rest) = Some rest"
    "speakers_label (''Speakers:'' @ ws @ rest) = Some rest"
    using speakers_label_match[of ws rest] by blast+
  show "sub_speakers (''Speaker:'' @ ws @ rest) = rest"
    unfolding sub_speakers_def m(1) by simp
  show "sub_speakers (''Speakers:'' @ ws @ rest) = rest"
    unfolding sub_speakers_def m(2) by simp
next
  fix raw
  assume "\<not> (\<exists>ws rest. ws \<noteq> [] \<and> (\<forall>c \<in> set ws. isspace c)
                   \<and> (raw = ''Speaker:'' @ ws @ rest \<or> raw = ''Speakers:'' @ ws @ rest))"
  then show "sub_speakers raw = raw" by (rule sub_speakers_other)
next
  show "sub_speakers ''Speaker: Bob'' = ''Bob''"
    by (simp add: sub_speakers_def speakers_label_def colon_spaces_def isspace_def)
  show "sub_speakers ''Speakers: Bob'' = ''Bob''"
    by (simp add: sub_speakers_def speakers_label_def colon_spaces_def isspace_def)
  show "sub_speakers ''speakers: Bob'' = ''speakers: Bob''"
    by (simp add: sub_speakers_def speakers_label_def)
qed

theorem speakers_label_stripped_witness:
  "sub_speakers ''Speakers:  Bob'' = ''Bob''
   \<and> sub_speakers [CHR ''S'', CHR ''p'', CHR ''e'', CHR ''a'', CHR ''k'', CHR ''e'', CHR ''r'',
                    CHR '':'', CHR 0x09, CHR ''B'', CHR ''o'', CHR ''b''] = ''Bob''
   \<and> sub_speakers ''Dr. Bob'' = ''Dr. Bob''
   \<and> speakers ((mk_session (Some ''Bots'') ''2019-03-06'' ''09:00'' ''10:00'' 1 ''s/2''
                  ''/events/nicar/s/2/'') \<lparr>speakers := Some ''Bob''\<rparr>)
       = Some (sub_speakers ''Speakers:  Bob'')
   \<and> speakers (mk_session (Some ''Bots'') ''2019-03-06'' ''09:00'' ''10:00'' 1 ''s/2''
                  ''/events/nicar/s/2/'') = None"
proof -
  note th = speakers_label_stripped
  have a: "''  '' \<noteq> [] \<and> (\<forall>c \<in> set ''  ''. isspace c) \<and> (''Bob'' = [] \<or> \<not> isspace (hd ''Bob''))"
    by (simp add: isspace_def)
  have "sub_speakers (''Speakers:'' @ ''  '' @ ''Bob'') = ''Bob''"
    using th a by blast
  then have 1: "sub_speakers ''Speakers:  Bob'' = ''Bob''" by simp
  have b: "[CHR 0x09] \<noteq> [] \<and> (\<forall>c \<in> set [CHR 0x09]. isspace c)
           \<and> (''Bob'' = [] \<or> \<not> isspace (hd ''Bob''))"
    by (simp add: isspace_def)
  have "sub_speakers (''Speaker:'' @ [CHR 0x09] @ ''Bob'') = ''Bob''"
    using th b by blast
  then have 2: "sub_speakers [CHR ''S'', CHR ''p'', CHR ''e'', CHR ''a'', CHR ''k'', CHR ''e'',
                    CHR ''r'', CHR '':'', CHR 0x09, CHR ''B'', CHR ''o'', CHR ''b''] = ''Bob''"
    by simp
  have "\<not> (\<exists>ws rest. ws \<noteq> [] \<and> (\<forall>c \<in> set ws. isspace c)
              \<and> (''Dr. Bob'' = ''Speaker:'' @ ws @ rest \<or> ''Dr. Bob'' = ''Speakers:'' @ ws @ rest))"
    by simp
  then have 3: "sub_speakers ''Dr. Bob'' = ''Dr. Bob''" using th by blast
  have g: "get_text el_two_spaces Event_speakers = Some ''Speakers:  Bob''"
    by (simp add: el_two_spaces_def get_text_mk_element join_stripped_single not_isspace_values)
  have 4: "speakers ((mk_session (Some ''Bots'') ''2019-03-06'' ''09:00'' ''10:00'' 1 ''s/2''
                  ''/events/nicar/s/2/'') \<lparr>speakers := Some ''Bob''\<rparr>)
       = Some (sub_speakers ''Speakers:  Bob'')"
    using th parse_two_spaces[of "''2019-03-06''"] g by blast
  have "\<forall>t \<in> set (text_contents el_bots Event_speakers). strip t = []"
    by (simp add: el_bots_def mk_element_def)
  then have 5: "speakers (mk_session (Some ''Bots'') ''2019-03-06'' ''09:00'' ''10:00'' 1 ''s/2''
                  ''/events/nicar/s/2/'') = None"
    using th parse_two_days(1)[of "''2019-03-06''"] by blast
  show ?thesis using 1 2 3 4 5 by blast
qed

subsection \<open>The sign of the stored length\<close>

lemma unpack2_Inr: "unpack2 xs = Inr (a, b) \<longleftrightarrow> xs = [a, b]"
  by (induction xs rule: unpack2.induct) auto

lemma calculate_length_Inr:
  assumes "calculate_length a b = Inr q"
  shows "\<exists>sh sm eh em.
           map_raising py_int (str_split '':'' a) = Inr [sh, sm]
           \<and> map_raising py_int (str_split '':'' b) = Inr [eh, em]
           \<and> int_truediv ((eh * 60 + em) - (sh * 60 + sm)) 60 = Inr q"
  using assms unfolding calculate_length_def
  by (auto simp: bind_err_eq_Inr unpack2_Inr)

lemma rounded_quotient_sign:
  assumes q: "int_truediv n 60 = Inr q" and y: "py_round q 3 = Inr y"
  shows "0 \<le> y \<longleftrightarrow> 0 \<le> n"
proof -
  define k where "k = round_half_even (q * 1000)"
  have nq: "nearest_double n 60 = Some q" using q by (simp add: int_truediv_Inr)
  have ky: "nearest_double k 1000 = Some y" using y by (simp add: py_round_Inr k_def)
  show ?thesis
  proof (cases "0 \<le> n")
    case True
    have "0 \<le> q" by (rule nearest_double_nonneg[OF _ True nq]) simp
    then have "0 \<le> k" unfolding k_def by (intro round_half_even_nonneg) simp
    then have "0 \<le> y" by (rule nearest_double_nonneg[OF _ _ ky, rotated]) simp
    with True show ?thesis by simp
  next
    case False
    then have n: "n \<noteq> 0" "n < 0" by simp_all
    have e: "- 10 \<le> ilog2 \<bar>n\<bar> 60" by (rule ilog2_small_divisor[OF n(1)]) simp_all
    then have e': "- 1022 \<le> ilog2 \<bar>n\<bar> 60" by simp
    have "(2::rat) powi (- 10) \<le> 2 powi (ilog2 \<bar>n\<bar> 60)"
      using e by (intro power_int_increasing) simp_all
    also have "\<dots> \<le> \<bar>q\<bar>" by (rule nearest_double_normal(1)[OF _ n(1) e' nq]) simp
    finally have "1 / 1024 \<le> \<bar>q\<bar>" by (simp add: power_int_minus_divide)
    moreover have "q < 0" by (rule nearest_double_normal(3)[OF _ n(1) e' nq n(2)]) simp
    ultimately have "q * 1000 \<le> - (1000 / 1024)" by simp
    moreover have "\<bar>of_int k - q * 1000\<bar> \<le> 1 / 2"
      unfolding k_def by (rule round_half_even_error)
    ultimately have "(of_int k :: rat) < 0" by linarith
    then have k: "k < 0" "k \<noteq> 0" by simp_all
    have ek: "- 1022 \<le> ilog2 \<bar>k\<bar> 1000"
      using ilog2_small_divisor[OF k(2), of 1000] by simp
    have "y < 0" by (rule nearest_double_normal(3)[OF _ k(2) ek ky k(1)]) simp
    with False show ?thesis by simp
  qed
qed

theorem backwards_session_negative:
  "parse_session el_backwards ''2019-03-06''
     = Inr (mk_session (Some ''Bots'') ''2019-03-06'' ''10:00'' ''09:00'' (- 1) ''s/2''
              ''/events/nicar/s/2/'')
   \<and> length_in_hours (mk_session (Some ''Bots'') ''2019-03-06'' ''10:00'' ''09:00'' (- 1) ''s/2''
              ''/events/nicar/s/2/'') < 0"
proof -
  note gt = get_text_mk_element join_stripped_single join_stripped_Nil not_isspace_values
  have t: "get_text el_backwards Event_meta_p = Some ''10 am - 9 am''"
    by (simp add: el_backwards_def gt)
  have l: "title_links el_backwards = [Some ''/events/nicar/s/2/'']"
    by (simp add: el_backwards_def gt)
  have o: "get_text el_backwards Event_title = Some ''Bots''"
    "get_text el_backwards Event_speakers = None"
    "get_text el_backwards Event_type = None"
    "get_text el_backwards Event_content_p = None"
    "get_text el_backwards Event_meta_h4 = None"
    by (simp_all add: el_backwards_def gt)
  have "parse_session el_backwards ''2019-03-06''
     = Inr (mk_session (Some ''Bots'') ''2019-03-06'' ''10:00'' ''09:00'' (- 1) ''s/2''
              ''/events/nicar/s/2/'')"
    unfolding parse_session_eval[OF t split_dash_values(4) convert_time_values(3,2) l
          calculate_length_values(4) py_round_values(3)]
    by (simp only: o slice_values mk_session_def map_option_case option.case)
  then show ?thesis by (simp add: mk_session_def)
qed

text \<open>
  C9, amended. For every record produced by \<^verbatim>\<open>parse_session\<close>, \<^verbatim>\<open>length_in_hours\<close> is a
  float rounded to 3 decimals, that is the float of \<open>k / 1000\<close> for an integer \<open>k\<close>, and
  it is non-negative exactly when the record's end time, in total minutes, is not
  before its start time; an end before the start gives a negative length.
\<close>

theorem length_in_hours_rounded:
  "\<forall>el d r. parse_session el d = Inr r \<longrightarrow>
     (\<exists>sh sm eh em k.
        map_raising py_int (str_split '':'' (time_start r)) = Inr [sh, sm]
        \<and> map_raising py_int (str_split '':'' (time_end r)) = Inr [eh, em]
        \<and> (0 \<le> length_in_hours r \<longleftrightarrow> sh * 60 + sm \<le> eh * 60 + em)
        \<and> nearest_double k 1000 = Some (length_in_hours r))"
proof (intro allI impI)
  fix el d r
  assume "parse_session el d = Inr r"
  then obtain q where c: "calculate_length (time_start r) (time_end r) = Inr q"
    and y: "py_round q 3 = Inr (length_in_hours r)"
    by (elim parse_session_InrE) (metis session.select_convs(6,7))
  from calculate_length_Inr[OF c] obtain sh sm eh em where
    s: "map_raising py_int (str_split '':'' (time_start r)) = Inr [sh, sm]"
    and e: "map_raising py_int (str_split '':'' (time_end r)) = Inr [eh, em]"
    and t: "int_truediv ((eh * 60 + em) - (sh * 60 + sm)) 60 = Inr q"
    by blast
  have "0 \<le> length_in_hours r \<longleftrightarrow> 0 \<le> (eh * 60 + em) - (sh * 60 + sm)"
    by (rule rounded_quotient_sign[OF t y])
  then have sign: "0 \<le> length_in_hours r \<longleftrightarrow> sh * 60 + sm \<le> eh * 60 + em" by simp
  have "nearest_double (round_half_even (q * 1000)) 1000 = Some (length_in_hours r)"
    using y by (simp add: py_round_Inr)
  with s e sign show "\<exists>sh sm eh em k.
        map_raising py_int (str_split '':'' (time_start r)) = Inr [sh, sm]
        \<and> map_raising py_int (str_split '':'' (time_end r)) = Inr [eh, em]
        \<and> (0 \<le> length_in_hours r \<longleftrightarrow> sh * 60 + sm \<le> eh * 60 + em)
        \<and> nearest_double k 1000 = Some (length_in_hours r)"
    by blast
qed

theorem length_in_hours_rounded_witness:
  "parse_session el_cats ''2019-03-06''
     = Inr (mk_session (Some ''Cats'') ''2019-03-06'' ''08:00'' ''09:30'' (3 / 2) ''s/3''
              ''/events/nicar/s/3/'')
   \<and> map_raising py_int (str_split '':'' ''08:00'') = Inr [8, 0]
   \<and> map_raising py_int (str_split '':'' ''09:30'') = Inr [9, 30]
   \<and> (\<exists>k. nearest_double k 1000 = Some (3 / 2))"
proof -
  let ?r = "mk_session (Some ''Cats'') ''2019-03-06'' ''08:00'' ''09:30'' (3 / 2) ''s/3''
              ''/events/nicar/s/3/''"
  have p: "parse_session el_cats ''2019-03-06'' = Inr ?r" by (rule parse_two_days(3))
  from length_in_hours_rounded[rule_format, OF p]
  obtain k where "nearest_double k 1000 = Some (length_in_hours ?r)" by blast
  then have 1: "\<exists>k. nearest_double k 1000 = Some (3 / 2)"
    by (auto simp: mk_session_def)
  have 2: "map_raising py_int (str_split '':'' ''08:00'') = Inr [8, 0]"
    using split_colon_digits[of "''08''" "''00''"] by (simp add: digits_values)
  have 3: "map_raising py_int (str_split '':'' ''09:30'') = Inr [9, 30]"
    using split_colon_digits[of "''09''" "''30''"] by (simp add: digits_values)
  show ?thesis using p 1 2 3 by blast
qed

end
